theory Spec2Isabelle
  imports Complex_Main "HOL-Library.Sublist"
begin

section \<open>The emergency responder component (src/App.jsx)\<close>

text \<open>
  The component is a single React function component.  Its state cells (\<open>useState\<close>),
  its refs (\<open>useRef\<close>), the private variables of the two \<open>throttle\<close> wrappers and
  the browser's pending timers are collected in one record; every handler of the
  source is a function from this record to the updated record.  Time is the reading
  of \<open>Date.now()\<close> in milliseconds.  A timer created by \<open>setTimeout\<close> is an entry
  (id, due time, callback) of the list of pending timers; it fires at its due time.
  The component is modelled from its mount on and while it stays mounted: the cleanup
  functions of the effects and the \<open>mounted\<close> flag of the geolocation effect, which
  only matter after unmounting, are left out.

  A JavaScript number is a binary64 value; a finite one is modelled by the rational
  it denotes.  The comparisons of the network classification are against 1, 0.5, 1000
  and 2000, which binary64 holds exactly, so they are comparisons of rationals.  The
  location filter subtracts and compares with the literal 0.0001: there the rounding
  of binary64 is modelled (\<open>round64\<close>).
\<close>

subsection \<open>Pending timers\<close>

record 'a machine =
  now :: nat
  nextId :: nat
  timers :: "(nat \<times> nat \<times> 'a) list"

text \<open>\<open>setTimeout(cb, delay)\<close>: a negative delay counts as zero; the id is returned.\<close>

definition setTimeout :: "'a \<Rightarrow> int \<Rightarrow> ('a, 'm) machine_scheme \<Rightarrow> nat \<times> ('a, 'm) machine_scheme" where
  "setTimeout cb delay s =
     (nextId s,
      s\<lparr>timers := timers s @ [(nextId s, now s + nat delay, cb)], nextId := Suc (nextId s)\<rparr>)"

text \<open>\<open>clearTimeout(id)\<close>: \<open>undefined\<close>, \<open>null\<close> and the id of a timer that has fired or
  was cleared are ignored.\<close>

definition clearTimeout :: "nat option \<Rightarrow> ('a, 'm) machine_scheme \<Rightarrow> ('a, 'm) machine_scheme" where
  "clearTimeout tid s = s\<lparr>timers := filter (\<lambda>t. Some (fst t) \<noteq> tid) (timers s)\<rparr>"

text \<open>The pending timer that fires first: the least due time, and among equal due
  times the one created first.\<close>

fun earliest :: "(nat \<times> nat \<times> 'a) list \<Rightarrow> (nat \<times> nat \<times> 'a) option" where
  "earliest [] = None"
| "earliest (t # ts) =
     (case earliest ts of
        None \<Rightarrow> Some t
      | Some u \<Rightarrow> if fst (snd u) < fst (snd t) then Some u else Some t)"

definition next_due :: "nat \<Rightarrow> (nat \<times> nat \<times> 'a) list \<Rightarrow> (nat \<times> nat \<times> 'a) option" where
  "next_due T ts =
     (case earliest ts of
        None \<Rightarrow> None
      | Some t \<Rightarrow> if fst (snd t) \<le> T then Some t else None)"

subsection \<open>The throttle helper\<close>

text \<open>
  \<^verbatim>\<open>
  function throttle(func, limit) {
    let lastFunc; let lastRan;
    return function () {
      const context = this; const args = arguments;
      if (!lastRan) { func.apply(context, args); lastRan = Date.now(); }
      else {
        clearTimeout(lastFunc);
        lastFunc = setTimeout(function () {
          if (Date.now() - lastRan >= limit) { func.apply(context, args); lastRan = Date.now(); }
        }, limit - (Date.now() - lastRan));
      }
    };
  }
  \<close>
  The two private variables are a record; \<open>None\<close> is \<open>undefined\<close>.  \<open>!lastRan\<close> holds
  for \<open>undefined\<close> and for the number 0.  The wrapped call is \<open>throttled\<close>, the body of
  the timer callback is \<open>throttled_timer\<close>; \<open>func\<close> is the callback already applied to
  the arguments of the call, and \<open>deferred\<close> is the timer entry that holds them.
\<close>

record throttle_vars =
  lastFunc :: "nat option"
  lastRan :: "nat option"

definition fresh_throttle :: throttle_vars where
  "fresh_throttle = \<lparr>lastFunc = None, lastRan = None\<rparr>"

definition run_throttled ::
  "(('a, 'm) machine_scheme \<Rightarrow> ('a, 'm) machine_scheme) \<Rightarrow>
   throttle_vars \<Rightarrow> ('a, 'm) machine_scheme \<Rightarrow> throttle_vars \<times> ('a, 'm) machine_scheme" where
  "run_throttled func v s = (let s' = func s in (v\<lparr>lastRan := Some (now s')\<rparr>, s'))"

definition defer_throttled ::
  "nat \<Rightarrow> 'a \<Rightarrow> nat \<Rightarrow> throttle_vars \<Rightarrow> ('a, 'm) machine_scheme \<Rightarrow>
   throttle_vars \<times> ('a, 'm) machine_scheme" where
  "defer_throttled limit deferred r v s =
     (let s1 = clearTimeout (lastFunc v) s;
          (i, s2) = setTimeout deferred (int limit - (int (now s1) - int r)) s1
      in (v\<lparr>lastFunc := Some i\<rparr>, s2))"

definition throttled ::
  "nat \<Rightarrow> (('a, 'm) machine_scheme \<Rightarrow> ('a, 'm) machine_scheme) \<Rightarrow> 'a \<Rightarrow>
   throttle_vars \<Rightarrow> ('a, 'm) machine_scheme \<Rightarrow> throttle_vars \<times> ('a, 'm) machine_scheme" where
  "throttled limit func deferred v s =
     (case lastRan v of
        None \<Rightarrow> run_throttled func v s
      | Some r \<Rightarrow>
          if r = 0 then run_throttled func v s
          else defer_throttled limit deferred r v s)"

text \<open>In the timer callback \<open>Date.now() - lastRan\<close> is not a number while \<open>lastRan\<close>
  is \<open>undefined\<close>, and the comparison is then false.\<close>

definition throttled_timer ::
  "nat \<Rightarrow> (('a, 'm) machine_scheme \<Rightarrow> ('a, 'm) machine_scheme) \<Rightarrow>
   throttle_vars \<Rightarrow> ('a, 'm) machine_scheme \<Rightarrow> throttle_vars \<times> ('a, 'm) machine_scheme" where
  "throttled_timer limit func v s =
     (case lastRan v of
        None \<Rightarrow> (v, s)
      | Some r \<Rightarrow>
          if int limit \<le> int (now s) - int r then run_throttled func v s else (v, s))"

subsection \<open>The bounded log\<close>

text \<open>
  \<^verbatim>\<open>
  setLogs((prev) => {
    if (prev.length > 20) return [...prev.slice(-19), `${time}: ${message}`];
    return [...prev, `${time}: ${message}`];
  });
  \<close>
  An entry is the pair of the clock reading that \<open>toLocaleTimeString\<close> renders and the
  message.
\<close>

type_synonym log_entry = "nat \<times> string"

definition slice_last :: "nat \<Rightarrow> 'a list \<Rightarrow> 'a list" where
  "slice_last n xs = drop (length xs - n) xs"

definition append_entry :: "log_entry \<Rightarrow> log_entry list \<Rightarrow> log_entry list" where
  "append_entry e prev =
     (if length prev > 20 then slice_last 19 prev @ [e] else prev @ [e])"

subsection \<open>Network classification\<close>

text \<open>
  \<^verbatim>\<open>
  const { effectiveType, downlink, rtt } = connection;
  let status;
  if (effectiveType.includes("2g") || downlink < 1 || rtt > 1000) { status = "poor"; }
  else if (effectiveType.includes("slow-2g") || downlink < 0.5 || rtt > 2000) { status = "very-poor"; }
  else { status = "good"; }
  setNetworkStatus(status);
  if (status === "very-poor") { handleNetworkEmergency(); }
  \<close>
  A sample has the three fields as the Network Information API types them: a string
  and two numbers.  \<open>String.prototype.includes\<close>: the needle occurs as a contiguous
  run.
\<close>

fun includes_str :: "string \<Rightarrow> string \<Rightarrow> bool" where
  "includes_str [] needle = (needle = [])"
| "includes_str (c # cs) needle = (prefix needle (c # cs) \<or> includes_str cs needle)"

record network_sample =
  effectiveType :: string
  downlink :: rat
  rtt :: rat

definition classify :: "network_sample \<Rightarrow> string" where
  "classify c =
     (if includes_str (effectiveType c) ''2g'' \<or> downlink c < 1 \<or> rtt c > 1000 then ''poor''
      else if includes_str (effectiveType c) ''slow-2g'' \<or> downlink c < 0.5 \<or> rtt c > 2000
      then ''very-poor''
      else ''good'')"

text \<open>The two conditions in the words of the specification.\<close>

definition poor_condition :: "network_sample \<Rightarrow> bool" where
  "poor_condition c =
     ((\<exists>p q. effectiveType c = p @ ''2g'' @ q) \<or> downlink c < 1 \<or> rtt c > 1000)"

definition very_poor_condition :: "network_sample \<Rightarrow> bool" where
  "very_poor_condition c =
     ((\<exists>p q. effectiveType c = p @ ''slow-2g'' @ q) \<or> downlink c < 1 / 2 \<or> rtt c > 2000)"

subsection \<open>Binary64 arithmetic\<close>

text \<open>
  The result of an operation on finite doubles is the exact result rounded to the
  nearest double, ties to the one with the even significand, or an infinity when
  that is out of range.  For a positive rational \<open>x\<close>, \<open>exponent64 x\<close> is the exponent
  \<open>e\<close> of its binade, \<open>2^e \<le> x < 2^(e+1)\<close>, no less than -1022 (below that the
  subnormal numbers keep the spacing of the lowest binade) and 1024 when \<open>x\<close> is beyond
  every binade; the doubles of a binade are the multiples of \<open>2^(e-52)\<close>.
\<close>

datatype jsnum = Num rat | PosInfinity | NegInfinity

definition pow2 :: "int \<Rightarrow> rat" where
  "pow2 i = (if 0 \<le> i then 2 ^ nat i else 1 / 2 ^ nat (- i))"

function binade_up :: "rat \<Rightarrow> nat \<Rightarrow> nat" where
  "binade_up x k = (if x < 2 \<or> 1024 \<le> k then k else binade_up (x / 2) (Suc k))"
  by pat_completeness auto
termination
  by (relation "measure (\<lambda>(x, k). 1024 - k)") auto

function binade_down :: "rat \<Rightarrow> nat \<Rightarrow> nat" where
  "binade_down x k = (if 1 \<le> x \<or> 1022 \<le> k then k else binade_down (2 * x) (Suc k))"
  by pat_completeness auto
termination
  by (relation "measure (\<lambda>(x, k). 1022 - k)") auto

declare binade_up.simps [simp del] binade_down.simps [simp del]

definition exponent64 :: "rat \<Rightarrow> int" where
  "exponent64 x = (if 1 \<le> x then int (binade_up x 0) else - int (binade_down x 0))"

text \<open>Rounding to the nearest integer, a tie to the even one.\<close>

definition round_even :: "rat \<Rightarrow> int" where
  "round_even n =
     (let f = \<lfloor>n\<rfloor>; d = n - of_int f
      in if d < 1 / 2 then f else if 1 / 2 < d then f + 1 else if even f then f else f + 1)"

definition round64 :: "rat \<Rightarrow> jsnum" where
  "round64 x =
     (if x = 0 then Num 0
      else
        (let q = pow2 (exponent64 \<bar>x\<bar> - 52);
             y = of_int (round_even (\<bar>x\<bar> / q)) * q
         in if pow2 1024 \<le> y then (if 0 < x then PosInfinity else NegInfinity)
            else Num (if 0 < x then y else - y)))"

text \<open>\<open>a - b\<close>, \<open>Math.abs\<close> and \<open>>\<close> on these values.\<close>

definition double_sub :: "rat \<Rightarrow> rat \<Rightarrow> jsnum" where
  "double_sub a b = round64 (a - b)"

fun js_abs :: "jsnum \<Rightarrow> jsnum" where
  "js_abs (Num x) = Num \<bar>x\<bar>"
| "js_abs PosInfinity = PosInfinity"
| "js_abs NegInfinity = PosInfinity"

fun js_gt :: "jsnum \<Rightarrow> jsnum \<Rightarrow> bool" where
  "js_gt (Num a) (Num b) = (b < a)"
| "js_gt (Num a) PosInfinity = False"
| "js_gt (Num a) NegInfinity = True"
| "js_gt PosInfinity PosInfinity = False"
| "js_gt PosInfinity b = True"
| "js_gt NegInfinity b = False"

subsection \<open>The component state\<close>

datatype reason = INACTIVITY | NETWORK_FAILURE | MANUAL_TEST

fun reason_name :: "reason \<Rightarrow> string" where
  "reason_name INACTIVITY = ''INACTIVITY''"
| "reason_name NETWORK_FAILURE = ''NETWORK_FAILURE''"
| "reason_name MANUAL_TEST = ''MANUAL_TEST''"

text \<open>
  A callback created during a render sees the state values of that render.  The two
  values that the callbacks of the source read from their render are kept in a
  \<open>scope\<close>.  The effects that install \<open>updateNetworkStatus\<close> and \<open>handleActivity\<close>
  have the dependency lists \<open>[]\<close> and \<open>[addLog]\<close>, and \<open>addLog\<close> is memoised with
  \<open>[]\<close>: both effects run once, after the first render, and their callbacks keep the
  \<open>handleNetworkEmergency\<close> and \<open>triggerEmergency\<close> of the first render for the
  lifetime of the component.  \<open>simulateAccident\<close> is rebuilt in every render and calls
  the \<open>triggerEmergency\<close> of the latest one.
\<close>

record scope =
  seen_emergencyMode :: bool
  seen_networkStatus :: string

definition first_render :: scope where
  "first_render = \<lparr>seen_emergencyMode = False, seen_networkStatus = ''checking...''\<rparr>"

datatype callback =
    InitNetwork
  | ThrottledUpdate
  | ThrottledActivity
  | InactivityTimeout scope
  | EscalationCheck scope
  | Resolve

record app = "callback machine" +
  location :: "(rat \<times> rat) option"
  networkStatus :: string
  isInactive :: bool
  emergencyMode :: bool
  logs :: "log_entry list"
  inactivityTimer :: "nat option"
  emergencyTimer :: "nat option"
  activityThrottle :: throttle_vars
  networkThrottle :: throttle_vars
  connection :: "network_sample option"
  geolocation :: bool
  worker :: bool

definition latest_render :: "app \<Rightarrow> scope" where
  "latest_render s = \<lparr>seen_emergencyMode = emergencyMode s, seen_networkStatus = networkStatus s\<rparr>"

definition addLog :: "string \<Rightarrow> app \<Rightarrow> app" where
  "addLog message s = s\<lparr>logs := append_entry (now s, message) (logs s)\<rparr>"

text \<open>
  \<^verbatim>\<open>
  const triggerEmergency = useCallback((reason) => {
      if (emergencyMode) return;
      setEmergencyMode(true);
      addLog(`EMERGENCY: ${reason}`);
      setTimeout(() => { setEmergencyMode(false); addLog("Emergency resolved"); }, 10000);
    }, [emergencyMode, addLog]);
  \<close>
\<close>

definition triggerEmergency :: "scope \<Rightarrow> reason \<Rightarrow> app \<Rightarrow> app" where
  "triggerEmergency sc reason s =
     (if seen_emergencyMode sc then s
      else snd (setTimeout Resolve 10000
                  (addLog (''EMERGENCY: '' @ reason_name reason) (s\<lparr>emergencyMode := True\<rparr>))))"

definition resolve :: "app \<Rightarrow> app" where
  "resolve s = addLog ''Emergency resolved'' (s\<lparr>emergencyMode := False\<rparr>)"

definition simulateAccident :: "app \<Rightarrow> app" where
  "simulateAccident s = triggerEmergency (latest_render s) MANUAL_TEST s"

text \<open>
  \<^verbatim>\<open>
  const handleNetworkEmergency = useCallback(() => {
      addLog("Poor network detected - monitoring");
      clearTimeout(emergencyTimer.current);
      emergencyTimer.current = setTimeout(() => {
        if (networkStatus === "very-poor") triggerEmergency("NETWORK_FAILURE");
      }, 30000);
    }, [networkStatus, addLog]);
  \<close>
\<close>

definition handleNetworkEmergency :: "scope \<Rightarrow> app \<Rightarrow> app" where
  "handleNetworkEmergency sc s =
     (let s1 = clearTimeout (emergencyTimer s) (addLog ''Poor network detected - monitoring'' s);
          (i, s2) = setTimeout (EscalationCheck sc) 30000 s1
      in s2\<lparr>emergencyTimer := Some i\<rparr>)"

definition escalation_check :: "scope \<Rightarrow> app \<Rightarrow> app" where
  "escalation_check sc s =
     (if seen_networkStatus sc = ''very-poor'' then triggerEmergency sc NETWORK_FAILURE s else s)"

text \<open>\<open>updateNetworkStatus\<close> reads \<open>navigator.connection\<close> when it runs; the listener
  and the initial timer exist only where the platform has the capability.\<close>

definition updateNetworkStatus :: "scope \<Rightarrow> app \<Rightarrow> app" where
  "updateNetworkStatus sc s =
     (case connection s of
        None \<Rightarrow> s
      | Some c \<Rightarrow>
          (let status = classify c;
               s1 = s\<lparr>networkStatus := status\<rparr>
           in if status = ''very-poor'' then handleNetworkEmergency sc s1 else s1))"

text \<open>
  \<^verbatim>\<open>
  const handleActivity = () => {
      setIsInactive(false);
      clearTimeout(inactivityTimer.current);
      inactivityTimer.current = setTimeout(() => {
        setIsInactive(true);
        addLog("User inactive - possible emergency");
        triggerEmergency("INACTIVITY");
      }, 45000);
    };
  \<close>
\<close>

definition handleActivity :: "scope \<Rightarrow> app \<Rightarrow> app" where
  "handleActivity sc s =
     (let s1 = clearTimeout (inactivityTimer s) (s\<lparr>isInactive := False\<rparr>);
          (i, s2) = setTimeout (InactivityTimeout sc) 45000 s1
      in s2\<lparr>inactivityTimer := Some i\<rparr>)"

definition inactivity_timeout :: "scope \<Rightarrow> app \<Rightarrow> app" where
  "inactivity_timeout sc s =
     triggerEmergency sc INACTIVITY
       (addLog ''User inactive - possible emergency'' (s\<lparr>isInactive := True\<rparr>))"

text \<open>
  \<^verbatim>\<open>
  setLocation((prev) => {
    if (!prev || Math.abs(prev.lat - latitude) > 0.0001 || Math.abs(prev.lng - longitude) > 0.0001) {
      addLog(`Location updated`);
      return { lat: latitude, lng: longitude };
    }
    return prev;
  });
  \<close>
  The readings and the stored coordinates are finite doubles.  The literal \<open>0.0001\<close>
  is the double nearest to one ten-thousandth, \<open>round64 (1 / 10000)\<close>.
\<close>

definition geoSuccess :: "rat \<Rightarrow> rat \<Rightarrow> app \<Rightarrow> app" where
  "geoSuccess latitude longitude s =
     (case location s of
        None \<Rightarrow> (addLog ''Location updated'' s)\<lparr>location := Some (latitude, longitude)\<rparr>
      | Some (lat, lng) \<Rightarrow>
          if js_gt (js_abs (double_sub lat latitude)) (round64 (1 / 10000))
             \<or> js_gt (js_abs (double_sub lng longitude)) (round64 (1 / 10000))
          then (addLog ''Location updated'' s)\<lparr>location := Some (latitude, longitude)\<rparr>
          else s)"

definition geoError :: "string \<Rightarrow> app \<Rightarrow> app" where
  "geoError message s = addLog (''Geolocation: '' @ message) s"

subsection \<open>The two throttled listeners\<close>

definition throttledHandler :: "app \<Rightarrow> app" where
  "throttledHandler s =
     (let (v, s') = throttled 1000 (handleActivity first_render) ThrottledActivity
                      (activityThrottle s) s
      in s'\<lparr>activityThrottle := v\<rparr>)"

definition throttledUpdate :: "app \<Rightarrow> app" where
  "throttledUpdate s =
     (let (v, s') = throttled 5000 (updateNetworkStatus first_render) ThrottledUpdate
                      (networkThrottle s) s
      in s'\<lparr>networkThrottle := v\<rparr>)"

subsection \<open>Mounting, events and the passing of time\<close>

text \<open>The state after the first render and its effects, at clock reading \<open>t\<close>.  The
  three capabilities are the \<open>in navigator\<close> and \<open>window.Worker\<close> tests of the source.\<close>

definition mount :: "nat \<Rightarrow> bool \<Rightarrow> network_sample option \<Rightarrow> bool \<Rightarrow> app" where
  "mount t geo conn wrk =
     (let s0 = \<lparr>now = t, nextId = 1, timers = [],
                location = None, networkStatus = ''checking...'', isInactive = False,
                emergencyMode = False, logs = [], inactivityTimer = None,
                emergencyTimer = None, activityThrottle = fresh_throttle,
                networkThrottle = fresh_throttle, connection = conn,
                geolocation = geo, worker = wrk\<rparr>;
          s1 = (if geo then s0 else addLog ''Geolocation not supported'' s0);
          s2 = (case conn of
                  None \<Rightarrow> s1\<lparr>networkStatus := ''API not supported''\<rparr>
                | Some c \<Rightarrow> snd (setTimeout InitNetwork 2000 s1));
          s3 = (if wrk then s2 else addLog ''Web Workers not supported - using fallback'' s2)
      in s3)"

text \<open>What reaches the component from outside: a press of the TEST EMERGENCY button;
  one of the four window events \<open>mousemove\<close>, \<open>keydown\<close>, \<open>scroll\<close>, \<open>touchstart\<close>,
  which all go to the same throttled handler; a \<open>change\<close> event of
  \<open>navigator.connection\<close>, after which the connection reads the given sample; a
  position reading or an error of \<open>watchPosition\<close>; a message of the worker with the
  given type tag.  A listener that was not installed at mount, because the capability
  is missing, receives nothing.\<close>

datatype event =
    Click
  | UserInput
  | ConnectionChange network_sample
  | Position rat rat
  | PositionError string
  | WorkerMessage string

fun handle :: "event \<Rightarrow> app \<Rightarrow> app" where
  "handle Click s = simulateAccident s"
| "handle UserInput s = throttledHandler s"
| "handle (ConnectionChange c) s =
     (case connection s of None \<Rightarrow> s | Some _ \<Rightarrow> throttledUpdate (s\<lparr>connection := Some c\<rparr>))"
| "handle (Position latitude longitude) s =
     (if geolocation s then geoSuccess latitude longitude s else s)"
| "handle (PositionError message) s = (if geolocation s then geoError message s else s)"
| "handle (WorkerMessage type) s =
     (if worker s \<and> type = ''HEALTH_CHECK'' then addLog ''Background health check OK'' s else s)"

fun run_callback :: "callback \<Rightarrow> app \<Rightarrow> app" where
  "run_callback InitNetwork s = updateNetworkStatus first_render s"
| "run_callback ThrottledUpdate s =
     (let (v, s') = throttled_timer 5000 (updateNetworkStatus first_render) (networkThrottle s) s
      in s'\<lparr>networkThrottle := v\<rparr>)"
| "run_callback ThrottledActivity s =
     (let (v, s') = throttled_timer 1000 (handleActivity first_render) (activityThrottle s) s
      in s'\<lparr>activityThrottle := v\<rparr>)"
| "run_callback (InactivityTimeout sc) s = inactivity_timeout sc s"
| "run_callback (EscalationCheck sc) s = escalation_check sc s"
| "run_callback Resolve s = resolve s"

text \<open>Firing a timer: it leaves the pending list, the clock reads its due time (or
  stays, if it is already later), and the callback runs.\<close>

definition fire :: "nat \<times> nat \<times> callback \<Rightarrow> app \<Rightarrow> app" where
  "fire t s =
     run_callback (snd (snd t))
       (s\<lparr>timers := filter (\<lambda>u. fst u \<noteq> fst t) (timers s), now := max (now s) (fst (snd t))\<rparr>)"


subsection \<open>Running the pending timers\<close>

text \<open>Every callback leaves fewer timers behind (counted with the weights below) than
  the one it was fired from, so running the timers that are due comes to an end.\<close>

fun weight :: "callback \<Rightarrow> nat" where
  "weight Resolve = 1"
| "weight (InactivityTimeout sc) = 2"
| "weight (EscalationCheck sc) = 2"
| "weight ThrottledActivity = 3"
| "weight ThrottledUpdate = 3"
| "weight InitNetwork = 3"

definition pending_weight :: "(nat \<times> nat \<times> callback) list \<Rightarrow> nat" where
  "pending_weight ts = sum_list (map (\<lambda>t. weight (snd (snd t))) ts)"

lemma pending_weight_simps [simp]:
  "pending_weight [] = 0"
  "pending_weight (t # ts) = weight (snd (snd t)) + pending_weight ts"
  "pending_weight (ts @ us) = pending_weight ts + pending_weight us"
  by (simp_all add: pending_weight_def)

lemma pending_weight_filter: "pending_weight (filter P ts) \<le> pending_weight ts"
  by (induction ts) auto

lemma pending_weight_remove:
  "t \<in> set ts \<Longrightarrow>
   pending_weight (filter (\<lambda>u. fst u \<noteq> fst t) ts) + weight (snd (snd t)) \<le> pending_weight ts"
proof (induction ts)
  case Nil
  then show ?case by simp
next
  case (Cons a ts)
  show ?case
  proof (cases "a = t")
    case True
    then show ?thesis using pending_weight_filter [of "\<lambda>u. fst u \<noteq> fst t" ts] by simp
  next
    case False
    with Cons
    have "pending_weight (filter (\<lambda>u. fst u \<noteq> fst t) ts) + weight (snd (snd t))
            \<le> pending_weight ts"
      by simp
    then show ?thesis by simp
  qed
qed

lemma earliest_in: "earliest ts = Some t \<Longrightarrow> t \<in> set ts"
  by (induction ts arbitrary: t) (auto split: option.splits if_splits)

lemma next_due_in: "next_due T ts = Some t \<Longrightarrow> t \<in> set ts"
  by (auto simp: next_due_def earliest_in split: option.splits if_splits)

lemma weight_triggerEmergency:
  "pending_weight (timers (triggerEmergency sc r s)) \<le> pending_weight (timers s) + 1"
  by (simp add: triggerEmergency_def setTimeout_def addLog_def)

lemma weight_handleActivity:
  "pending_weight (timers (handleActivity sc s)) \<le> pending_weight (timers s) + 2"
  using pending_weight_filter [of "\<lambda>t. Some (fst t) \<noteq> inactivityTimer s" "timers s"]
  by (simp add: handleActivity_def setTimeout_def clearTimeout_def Let_def)

lemma weight_handleNetworkEmergency:
  "pending_weight (timers (handleNetworkEmergency sc s)) \<le> pending_weight (timers s) + 2"
  using pending_weight_filter [of "\<lambda>t. Some (fst t) \<noteq> emergencyTimer s" "timers s"]
  by (simp add: handleNetworkEmergency_def setTimeout_def clearTimeout_def Let_def addLog_def)

lemma weight_updateNetworkStatus:
  "pending_weight (timers (updateNetworkStatus sc s)) \<le> pending_weight (timers s) + 2"
  using weight_handleNetworkEmergency [of sc "s\<lparr>networkStatus := classify (the (connection s))\<rparr>"]
  by (auto simp: updateNetworkStatus_def Let_def split: option.splits)

lemma weight_run_callback:
  "pending_weight (timers (run_callback cb s)) < pending_weight (timers s) + weight cb"
proof (cases cb)
  case InitNetwork
  then show ?thesis using weight_updateNetworkStatus [of first_render s] by simp
next
  case ThrottledUpdate
  then show ?thesis using weight_updateNetworkStatus [of first_render s]
    by (simp add: throttled_timer_def run_throttled_def Let_def split: option.splits)
next
  case ThrottledActivity
  then show ?thesis using weight_handleActivity [of first_render s]
    by (simp add: throttled_timer_def run_throttled_def Let_def split: option.splits)
next
  case (InactivityTimeout sc)
  then show ?thesis
    using weight_triggerEmergency
            [of sc INACTIVITY "addLog ''User inactive - possible emergency'' (s\<lparr>isInactive := True\<rparr>)"]
    by (simp add: inactivity_timeout_def addLog_def)
next
  case (EscalationCheck sc)
  then show ?thesis using weight_triggerEmergency [of sc NETWORK_FAILURE s]
    by (simp add: escalation_check_def)
next
  case Resolve
  then show ?thesis by (simp add: resolve_def addLog_def)
qed

lemma weight_fire:
  assumes "t \<in> set (timers s)"
  shows "pending_weight (timers (fire t s)) < pending_weight (timers s)"
proof -
  let ?s = "s\<lparr>timers := filter (\<lambda>u. fst u \<noteq> fst t) (timers s), now := max (now s) (fst (snd t))\<rparr>"
  have "pending_weight (timers (fire t s)) < pending_weight (timers ?s) + weight (snd (snd t))"
    unfolding fire_def by (rule weight_run_callback)
  also have "\<dots> \<le> pending_weight (timers s)"
    using pending_weight_remove [OF assms] by simp
  finally show ?thesis .
qed

text \<open>Time passes up to the clock reading \<open>T\<close>: the timers due by then fire in their
  order, and the clock ends at \<open>T\<close>.\<close>

function run_until :: "nat \<Rightarrow> app \<Rightarrow> app" where
  "run_until T s =
     (case next_due T (timers s) of
        None \<Rightarrow> s\<lparr>now := max (now s) T\<rparr>
      | Some t \<Rightarrow> run_until T (fire t s))"
  by pat_completeness auto
termination
  by (relation "measure (\<lambda>(T, s). pending_weight (timers s))")
     (auto dest: next_due_in intro: weight_fire)

declare run_until.simps [simp del]

text \<open>The callbacks that \<open>run_until\<close> runs, each with the clock reading at which it
  runs.\<close>

function fired_until :: "nat \<Rightarrow> app \<Rightarrow> (nat \<times> callback) list" where
  "fired_until T s =
     (case next_due T (timers s) of
        None \<Rightarrow> []
      | Some t \<Rightarrow> (max (now s) (fst (snd t)), snd (snd t)) # fired_until T (fire t s))"
  by pat_completeness auto
termination
  by (relation "measure (\<lambda>(T, s). pending_weight (timers s))")
     (auto dest: next_due_in intro: weight_fire)

declare fired_until.simps [simp del]


text \<open>An event delivered at clock reading \<open>T\<close> finds the timers that were due by \<open>T\<close>
  already fired.\<close>

definition event_at :: "nat \<Rightarrow> event \<Rightarrow> app \<Rightarrow> app" where
  "event_at T e s = handle e (run_until T s)"

definition play :: "(nat \<times> event) list \<Rightarrow> app \<Rightarrow> app" where
  "play es s = foldl (\<lambda>x e. event_at (fst e) (snd e) x) s es"

subsection \<open>A throttled callback under observation\<close>

text \<open>To state what \<open>throttle\<close> does to a callback, the wrapper is run on a machine of
  its own whose callback records the clock reading and the arguments of each of its
  runs.  A pending timer holds the arguments of the call that created it.\<close>

record 'x probe = "'x machine" +
  vars :: throttle_vars
  calls :: "(nat \<times> 'x) list"

definition probe_start :: "nat \<Rightarrow> 'x probe" where
  "probe_start t = \<lparr>now = t, nextId = 1, timers = [], vars = fresh_throttle, calls = []\<rparr>"

definition record_call :: "'x \<Rightarrow> 'x probe \<Rightarrow> 'x probe" where
  "record_call args s = s\<lparr>calls := calls s @ [(now s, args)]\<rparr>"

definition wrapped :: "nat \<Rightarrow> 'x \<Rightarrow> 'x probe \<Rightarrow> 'x probe" where
  "wrapped limit args s =
     (let (v, s') = throttled limit (record_call args) args (vars s) s in s'\<lparr>vars := v\<rparr>)"

definition wrapped_timer :: "nat \<Rightarrow> 'x \<Rightarrow> 'x probe \<Rightarrow> 'x probe" where
  "wrapped_timer limit args s =
     (let (v, s') = throttled_timer limit (record_call args) (vars s) s in s'\<lparr>vars := v\<rparr>)"

definition probe_fire :: "nat \<Rightarrow> nat \<times> nat \<times> 'x \<Rightarrow> 'x probe \<Rightarrow> 'x probe" where
  "probe_fire limit t s =
     wrapped_timer limit (snd (snd t))
       (s\<lparr>timers := filter (\<lambda>u. fst u \<noteq> fst t) (timers s), now := max (now s) (fst (snd t))\<rparr>)"

lemma length_probe_fire:
  "t \<in> set (timers s) \<Longrightarrow> length (timers (probe_fire limit t s)) < length (timers s)"
proof -
  assume "t \<in> set (timers s)"
  then have "length (filter (\<lambda>u. fst u \<noteq> fst t) (timers s)) < length (timers s)"
    by (intro length_filter_less [of t]) simp_all
  then show ?thesis
    by (simp add: probe_fire_def wrapped_timer_def throttled_timer_def run_throttled_def
                  record_call_def Let_def split: option.splits)
qed

function probe_until :: "nat \<Rightarrow> nat \<Rightarrow> 'x probe \<Rightarrow> 'x probe" where
  "probe_until limit T s =
     (case next_due T (timers s) of
        None \<Rightarrow> s\<lparr>now := max (now s) T\<rparr>
      | Some t \<Rightarrow> probe_until limit T (probe_fire limit t s))"
  by pat_completeness auto
termination
  by (relation "measure (\<lambda>(limit, T, s). length (timers s))")
     (auto dest: next_due_in intro: length_probe_fire)

declare probe_until.simps [simp del]

definition call_at :: "nat \<Rightarrow> nat \<times> 'x \<Rightarrow> 'x probe \<Rightarrow> 'x probe" where
  "call_at limit c s = wrapped limit (snd c) (probe_until limit (fst c) s)"

subsection \<open>Predicates on states\<close>

text \<open>The callbacks of the inactivity watcher: the deferred \<open>handleActivity\<close> of the
  throttle and the countdown itself.\<close>

fun is_countdown :: "callback \<Rightarrow> bool" where
  "is_countdown ThrottledActivity = True"
| "is_countdown (InactivityTimeout sc) = True"
| "is_countdown cb = False"

fun is_inactivity :: "callback \<Rightarrow> bool" where
  "is_inactivity (InactivityTimeout sc) = True"
| "is_inactivity cb = False"

fun is_escalation :: "callback \<Rightarrow> bool" where
  "is_escalation (EscalationCheck sc) = True"
| "is_escalation cb = False"

definition countdown_free :: "app \<Rightarrow> bool" where
  "countdown_free s \<longleftrightarrow>
     \<not> isInactive s \<and> inactivityTimer s = None
     \<and> list_all (\<lambda>t. \<not> is_countdown (snd (snd t))) (timers s)
     \<and> list_all (\<lambda>e. snd e \<noteq> ''User inactive - possible emergency''
                     \<and> snd e \<noteq> ''EMERGENCY: INACTIVITY'') (logs s)"

definition last_ran :: "throttle_vars \<Rightarrow> nat" where
  "last_ran v = (case lastRan v of None \<Rightarrow> 0 | Some r \<Rightarrow> r)"

definition older :: "nat option \<Rightarrow> nat \<Rightarrow> bool" where
  "older r n = (case r of None \<Rightarrow> True | Some i \<Rightarrow> i < n)"

text \<open>What every state of a running component satisfies (\<open>hygienic_mount\<close>,
  \<open>hygienic_handle\<close> and \<open>hygienic_run_until\<close> below): timer ids are unique and
  older than the next id, no pending timer is overdue, the only pending deferred
  \<open>handleActivity\<close> is the one \<open>lastFunc\<close> names and it is due no earlier than one
  second after the last run, the only pending countdown is the one
  \<open>inactivityTimer.current\<close> names, the only pending escalation check is the one
  \<open>emergencyTimer.current\<close> names, the last run of \<open>handleActivity\<close> is not in the
  future, and the \<open>lastFunc\<close> of the network throttle names no timer but a deferred
  \<open>updateNetworkStatus\<close>.\<close>

definition hygienic :: "app \<Rightarrow> bool" where
  "hygienic s \<longleftrightarrow>
     distinct (map fst (timers s))
     \<and> list_all (\<lambda>t. fst t < nextId s \<and> now s \<le> fst (snd t)) (timers s)
     \<and> list_all (\<lambda>t. snd (snd t) = ThrottledActivity \<longrightarrow>
                      lastFunc (activityThrottle s) = Some (fst t)
                      \<and> 0 < last_ran (activityThrottle s)
                      \<and> last_ran (activityThrottle s) + 1000 \<le> fst (snd t)) (timers s)
     \<and> list_all (\<lambda>t. is_inactivity (snd (snd t)) \<longrightarrow>
                      inactivityTimer s = Some (fst t)
                      \<and> snd (snd t) = InactivityTimeout first_render) (timers s)
     \<and> list_all (\<lambda>t. is_escalation (snd (snd t)) \<longrightarrow> emergencyTimer s = Some (fst t)) (timers s)
     \<and> last_ran (activityThrottle s) \<le> now s
     \<and> list_all (\<lambda>t. lastFunc (networkThrottle s) = Some (fst t) \<longrightarrow>
                      snd (snd t) = ThrottledUpdate) (timers s)
     \<and> older (lastFunc (networkThrottle s)) (nextId s)"

text \<open>The pending timers of the inactivity watcher.  Once a user-input event has
  been handled at clock reading \<open>D - 46000\<close>, the watcher is \<open>armed\<close>: either the
  deferred \<open>handleActivity\<close> is pending and due by \<open>D - 45000\<close>, or the countdown is
  pending and due by \<open>D\<close>.  It has \<open>lapsed\<close> when the flag is set and nothing of
  the watcher is pending.\<close>

definition countdowns :: "app \<Rightarrow> (nat \<times> nat \<times> callback) list" where
  "countdowns s = filter (\<lambda>t. is_countdown (snd (snd t))) (timers s)"

definition armed :: "nat \<Rightarrow> app \<Rightarrow> bool" where
  "armed D s \<longleftrightarrow>
     list_ex (\<lambda>t. snd (snd t) = ThrottledActivity \<and> fst (snd t) + 45000 \<le> D) (countdowns s)
     \<or> (list_all (\<lambda>t. snd (snd t) \<noteq> ThrottledActivity) (countdowns s)
        \<and> list_ex (\<lambda>t. fst (snd t) \<le> D) (countdowns s))"








subsection \<open>Two sessions\<close>

text \<open>A session: the page is opened at clock reading 1000 on a platform without the
  Network Information API; the user moves the pointer at once, presses the test
  button at 41000 and again at 52000, and does nothing else.\<close>

definition session_start :: app where
  "session_start = mount 1000 True None True"

definition after_input :: app where
  "after_input = event_at 1000 UserInput session_start"

definition after_click :: app where
  "after_click = event_at 41000 Click after_input"

definition after_countdown :: app where
  "after_countdown = run_until 46000 after_click"

definition after_second_click :: app where
  "after_second_click = event_at 52000 Click after_countdown"

text \<open>A second session, on a platform with the Network Information API: the
  connection reports the tag "slow-2g", 0.25 Mbps and a round trip of 3000 ms from the
  start, and reports a change (to the same values) at clock reading 10000.\<close>

definition weak_link :: network_sample where
  "weak_link = \<lparr>effectiveType = ''slow-2g'', downlink = 1 / 4, rtt = 3000\<rparr>"

definition network_session :: app where
  "network_session =
     run_until 45000 (event_at 10000 (ConnectionChange weak_link)
                        (mount 1000 True (Some weak_link) True))"

text \<open>A trailing call is pending: the one timer of the wrapper holds the arguments
  \<open>a\<close> and is due one interval after the last run, at \<open>r + limit\<close>.\<close>

definition trailing :: "nat \<Rightarrow> nat \<Rightarrow> 'x \<Rightarrow> 'x probe \<Rightarrow> bool" where
  "trailing r limit a s \<longleftrightarrow>
     lastRan (vars s) = Some r
     \<and> (case lastFunc (vars s) of None \<Rightarrow> False | Some i \<Rightarrow> timers s = [(i, r + limit, a)])"

text \<open>A deferred call is pending: the one timer of the wrapper is the one that
  \<open>lastFunc\<close> names, holds the arguments \<open>a\<close> and is due at \<open>d\<close>.\<close>

definition deferred_at :: "nat \<Rightarrow> 'x \<Rightarrow> 'x probe \<Rightarrow> bool" where
  "deferred_at d a s \<longleftrightarrow>
     (case lastFunc (vars s) of None \<Rightarrow> False | Some i \<Rightarrow> timers s = [(i, d, a)])"

text \<open>A wrapper with interval 1000 that ran once, at clock reading 7, and has not been
  called since; the clock reads 5000.\<close>

definition quiet_probe :: "string probe" where
  "quiet_probe = probe_until 1000 5000 (wrapped 1000 ''a'' (probe_start 7))"

subsection \<open>The location filter in words\<close>

text \<open>The filter in the words of the specification: a reading is significant when
  there is no accepted reading yet, or when it differs from the last accepted one by
  more than 0.0001 degrees in latitude or in longitude.\<close>

definition significant :: "(rat \<times> rat) option \<Rightarrow> rat \<Rightarrow> rat \<Rightarrow> bool" where
  "significant prev latitude longitude =
     (case prev of
        None \<Rightarrow> True
      | Some (lat, lng) \<Rightarrow> \<bar>latitude - lat\<bar> > 1 / 10000 \<or> \<bar>longitude - lng\<bar> > 1 / 10000)"

text \<open>The filter in binary64: the rounded difference of the two doubles is, in
  absolute value, greater than the double 0.0001.\<close>

definition exceeds64 :: "rat \<Rightarrow> rat \<Rightarrow> bool" where
  "exceeds64 a b = js_gt (js_abs (double_sub a b)) (round64 (1 / 10000))"

definition significant64 :: "(rat \<times> rat) option \<Rightarrow> rat \<Rightarrow> rat \<Rightarrow> bool" where
  "significant64 prev latitude longitude =
     (case prev of
        None \<Rightarrow> True
      | Some (lat, lng) \<Rightarrow> exceeds64 lat latitude \<or> exceeds64 lng longitude)"

text \<open>The reading that is stored after a sequence of readings: the last one that
  passed the filter against the reading stored before it.\<close>

definition accepted :: "(rat \<times> rat) option \<Rightarrow> (rat \<times> rat) list \<Rightarrow> (rat \<times> rat) option" where
  "accepted prev rs = foldl (\<lambda>p r. if significant64 p (fst r) (snd r) then Some r else p) prev rs"

section \<open>Properties\<close>

subsection \<open>Substring search and the classification\<close>

lemma includes_str_iff: "includes_str h n \<longleftrightarrow> (\<exists>p q. h = p @ n @ q)"
proof (induction h)
  case Nil
  then show ?case by auto
next
  case (Cons c cs)
  show ?case
  proof
    assume "includes_str (c # cs) n"
    then consider "prefix n (c # cs)" | "includes_str cs n" by auto
    then show "\<exists>p q. c # cs = p @ n @ q"
    proof cases
      case 1
      then obtain q where "c # cs = n @ q" by (auto simp: prefix_def)
      then have "c # cs = [] @ n @ q" by simp
      then show ?thesis by blast
    next
      case 2
      with Cons.IH obtain p q where "cs = p @ n @ q" by blast
      then have "c # cs = (c # p) @ n @ q" by simp
      then show ?thesis by blast
    qed
  next
    assume "\<exists>p q. c # cs = p @ n @ q"
    then obtain p q where pq: "c # cs = p @ n @ q" by blast
    show "includes_str (c # cs) n"
    proof (cases p)
      case Nil
      with pq have "prefix n (c # cs)" by (simp add: prefix_def)
      then show ?thesis by simp
    next
      case (Cons a p')
      with pq have "cs = p' @ n @ q" by simp
      with Cons.IH have "includes_str cs n" by blast
      then show ?thesis by simp
    qed
  qed
qed

lemma slow_2g_has_2g: "includes_str h ''slow-2g'' \<Longrightarrow> includes_str h ''2g''"
proof -
  assume "includes_str h ''slow-2g''"
  then obtain p q where "h = p @ ''slow-2g'' @ q" by (auto simp: includes_str_iff)
  then have "h = (p @ ''slow-'') @ ''2g'' @ q" by simp
  then show ?thesis unfolding includes_str_iff by blast
qed

lemma classify_by_conditions:
  "classify c =
     (if poor_condition c then ''poor''
      else if very_poor_condition c then ''very-poor'' else ''good'')"
  by (simp add: classify_def poor_condition_def very_poor_condition_def includes_str_iff)

lemma very_poor_is_poor: "very_poor_condition c \<Longrightarrow> poor_condition c"
  unfolding poor_condition_def very_poor_condition_def
  using slow_2g_has_2g[of "effectiveType c"] by (auto simp: includes_str_iff)

lemma classify_not_very_poor: "classify c \<noteq> ''very-poor''"
  using very_poor_is_poor[of c] by (simp add: classify_by_conditions)

lemma updateNetworkStatus_plain:
  "updateNetworkStatus sc s =
     (case connection s of None \<Rightarrow> s | Some c \<Rightarrow> s\<lparr>networkStatus := classify c\<rparr>)"
  by (simp add: updateNetworkStatus_def classify_not_very_poor Let_def split: option.splits)

text \<open>
  Claim C2.  The status that \<open>updateNetworkStatus\<close> stores is a function of the sample
  (effectiveType, downlink, rtt) alone.  It is one of good, poor and very-poor, and
  it is found by testing the poor condition (the tag contains "2g", or downlink < 1,
  or rtt > 1000) before the very-poor condition (the tag contains "slow-2g", or
  downlink < 0.5, or rtt > 2000): a sample that meets the poor condition is poor,
  also when it meets the very-poor condition as well, and a sample that meets
  neither is good.
\<close>

theorem classification_order:
  "classify c \<in> {''good'', ''poor'', ''very-poor''}
   \<and> classify c =
       (if poor_condition c then ''poor''
        else if very_poor_condition c then ''very-poor'' else ''good'')
   \<and> (poor_condition c \<and> very_poor_condition c \<longrightarrow> classify c = ''poor'')
   \<and> (\<not> poor_condition c \<and> \<not> very_poor_condition c \<longrightarrow> classify c = ''good'')
   \<and> (connection s = Some c \<longrightarrow> networkStatus (updateNetworkStatus sc s) = classify c)"
  by (simp add: classify_by_conditions [symmetric] updateNetworkStatus_plain)
     (simp add: classify_by_conditions)

theorem classification_order_witness:
  "poor_condition \<lparr>effectiveType = ''slow-2g'', downlink = 3 / 10, rtt = 2500\<rparr>
   \<and> very_poor_condition \<lparr>effectiveType = ''slow-2g'', downlink = 3 / 10, rtt = 2500\<rparr>
   \<and> classify \<lparr>effectiveType = ''slow-2g'', downlink = 3 / 10, rtt = 2500\<rparr> = ''poor''
   \<and> \<not> poor_condition \<lparr>effectiveType = ''4g'', downlink = 10, rtt = 50\<rparr>
   \<and> \<not> very_poor_condition \<lparr>effectiveType = ''4g'', downlink = 10, rtt = 50\<rparr>
   \<and> classify \<lparr>effectiveType = ''4g'', downlink = 10, rtt = 50\<rparr> = ''good''
   \<and> networkStatus
        (updateNetworkStatus first_render
           ((mount 1 True (Some \<lparr>effectiveType = ''4g'', downlink = 10, rtt = 50\<rparr>) True)
              \<lparr>connection := Some \<lparr>effectiveType = ''slow-2g'', downlink = 3 / 10, rtt = 2500\<rparr>\<rparr>))
        = ''poor''"
proof -
  let ?bad = "\<lparr>effectiveType = ''slow-2g'', downlink = 3 / 10, rtt = 2500\<rparr>"
  let ?fine = "\<lparr>effectiveType = ''4g'', downlink = 10, rtt = 50\<rparr>"
  let ?s = "(mount 1 True (Some ?fine) True)\<lparr>connection := Some ?bad\<rparr>"
  have p: "poor_condition ?bad" and v: "very_poor_condition ?bad"
    by (simp_all add: poor_condition_def very_poor_condition_def)
  have "\<not> includes_str ''4g'' ''2g''" and "\<not> includes_str ''4g'' ''slow-2g''"
    by simp_all
  then have np: "\<not> poor_condition ?fine" and nv: "\<not> very_poor_condition ?fine"
    unfolding includes_str_iff by (simp_all add: poor_condition_def very_poor_condition_def)
  have c: "connection ?s = Some ?bad" by simp
  from classification_order [of ?bad ?s first_render] p v c
  have 1: "classify ?bad = ''poor''"
    and 2: "networkStatus (updateNetworkStatus first_render ?s) = ''poor''" by simp_all
  from classification_order [of ?fine ?s first_render] np nv
  have 3: "classify ?fine = ''good''" by simp
  from p v np nv 1 2 3 show ?thesis by blast
qed

text \<open>
  Claim C9.  No sample is classified very-poor.  Each disjunct of the very-poor test
  implies a disjunct of the poor test, which is tried first: a tag that contains
  "slow-2g" contains "2g", downlink < 0.5 implies downlink < 1, and rtt > 2000
  implies rtt > 1000.  So \<open>updateNetworkStatus\<close> only stores the status; it never
  takes the branch that calls \<open>handleNetworkEmergency\<close>.
\<close>

theorem very_poor_unreachable:
  "classify c \<noteq> ''very-poor''
   \<and> (includes_str (effectiveType c) ''slow-2g'' \<longrightarrow> includes_str (effectiveType c) ''2g'')
   \<and> (downlink c < 1 / 2 \<longrightarrow> downlink c < 1)
   \<and> (rtt c > 2000 \<longrightarrow> rtt c > 1000)
   \<and> (very_poor_condition c \<longrightarrow> classify c = ''poor'')
   \<and> updateNetworkStatus sc s =
       (case connection s of None \<Rightarrow> s | Some c' \<Rightarrow> s\<lparr>networkStatus := classify c'\<rparr>)"
proof -
  have "very_poor_condition c \<longrightarrow> classify c = ''poor''"
    using very_poor_is_poor [of c] by (simp add: classify_by_conditions)
  moreover have "includes_str (effectiveType c) ''slow-2g'' \<longrightarrow> includes_str (effectiveType c) ''2g''"
    using slow_2g_has_2g [of "effectiveType c"] by blast
  moreover have "downlink c < 1 / 2 \<longrightarrow> downlink c < 1" and "rtt c > 2000 \<longrightarrow> rtt c > 1000"
    by simp_all
  ultimately show ?thesis
    using classify_not_very_poor [of c] updateNetworkStatus_plain [of sc s] by blast
qed

theorem very_poor_unreachable_witness:
  "includes_str ''slow-2g'' ''slow-2g'' \<and> includes_str ''slow-2g'' ''2g''
   \<and> (1 / 4 :: rat) < 1 / 2 \<and> (1 / 4 :: rat) < 1
   \<and> (3000 :: rat) > 2000 \<and> (3000 :: rat) > 1000
   \<and> very_poor_condition \<lparr>effectiveType = ''slow-2g'', downlink = 1 / 4, rtt = 3000\<rparr>
   \<and> classify \<lparr>effectiveType = ''slow-2g'', downlink = 1 / 4, rtt = 3000\<rparr> = ''poor''"
proof -
  let ?c = "\<lparr>effectiveType = ''slow-2g'', downlink = 1 / 4, rtt = 3000\<rparr>"
  have a: "includes_str (effectiveType ?c) ''slow-2g''" by simp
  have b: "downlink ?c < 1 / 2" and d: "rtt ?c > 2000" by simp_all
  have v: "very_poor_condition ?c" by (simp add: very_poor_condition_def)
  from very_poor_unreachable [of ?c first_render "mount 1 True None True"] a b d v
  show ?thesis by simp
qed

subsection \<open>The bounded log\<close>

lemma length_append_entry: "length prev \<le> 21 \<Longrightarrow> length (append_entry e prev) \<le> 21"
  by (simp add: append_entry_def slice_last_def)

lemma log_bound: "length (foldl (\<lambda>l e. append_entry e l) [] es) \<le> 21"
  by (induction es rule: rev_induct) (simp_all add: length_append_entry)

lemma append_entry_drop:
  "append_entry e prev = drop (if length prev > 20 then length prev - 19 else 0) prev @ [e]"
  by (simp add: append_entry_def slice_last_def)

lemma log_reaches_21:
  "length (foldl (\<lambda>l e. append_entry e l) [] (replicate 21 (0, ''m''))) = 21"
  by (simp add: append_entry_def slice_last_def eval_nat_numeral)

text \<open>
  Claim C8.  Appending to the log, starting from the empty log, never makes it longer
  than 21 entries (a log of 21 entries is cut to its last 19 before the next entry is
  added).  Every append puts the new entry at the end of what is kept, and what is
  kept is the old log without some of its oldest entries: all of it while the old log
  has at most 20 entries, and its last 19 entries otherwise.  \<open>addLog\<close> is this
  append on the log of the component.
\<close>

theorem log_bounded_oldest_evicted:
  "length (foldl (\<lambda>l e. append_entry e l) [] es) \<le> 21
   \<and> (\<exists>k. append_entry e prev = drop k prev @ [e]
          \<and> (length prev \<le> 20 \<longrightarrow> k = 0)
          \<and> (length prev > 20 \<longrightarrow> k = length prev - 19))
   \<and> logs (addLog message s) = append_entry (now s, message) (logs s)"
proof -
  have "append_entry e prev = drop (if length prev > 20 then length prev - 19 else 0) prev @ [e]"
    by (rule append_entry_drop)
  then have "\<exists>k. append_entry e prev = drop k prev @ [e]
          \<and> (length prev \<le> 20 \<longrightarrow> k = 0)
          \<and> (length prev > 20 \<longrightarrow> k = length prev - 19)"
    by (intro exI [of _ "if length prev > 20 then length prev - 19 else 0"]) simp
  then show ?thesis by (simp add: log_bound addLog_def)
qed

theorem log_bounded_oldest_evicted_witness:
  "length (foldl (\<lambda>l e. append_entry e l) [] (replicate 22 (0, ''m''))) \<le> 21
   \<and> (\<exists>k. append_entry (5, ''new'') (map (\<lambda>i. (i, ''old'')) [0 ..< 21])
            = drop k (map (\<lambda>i. (i, ''old'')) [0 ..< 21]) @ [(5, ''new'')] \<and> k = 2)
   \<and> (\<exists>k. append_entry (5, ''new'') [(1, ''old'')] = drop k [(1, ''old'')] @ [(5, ''new'')] \<and> k = 0)"
proof -
  let ?full = "map (\<lambda>i. (i, ''old'')) [0 ..< 21]"
  have l: "length ?full > 20" and l': "length [(1::nat, ''old'')] \<le> 20" by simp_all
  from log_bounded_oldest_evicted [of "replicate 22 (0, ''m'')" "(5, ''new'')" ?full]
  have 1: "length (foldl (\<lambda>l e. append_entry e l) [] (replicate 22 (0, ''m''))) \<le> 21"
    and 2: "\<exists>k. append_entry (5, ''new'') ?full = drop k ?full @ [(5, ''new'')] \<and> k = 2"
    using l by auto
  from log_bounded_oldest_evicted [of "[]" "(5, ''new'')" "[(1, ''old'')]"] l'
  have 3: "\<exists>k. append_entry (5, ''new'') [(1, ''old'')] = drop k [(1, ''old'')] @ [(5, ''new'')] \<and> k = 0"
    by auto
  from 1 2 3 show ?thesis by blast
qed

subsection \<open>The location filter\<close>

lemma round64_zero [simp]: "round64 0 = Num 0"
  by (simp add: round64_def)

lemma floor_literal: "\<lfloor>4611686018427387904 / (625::rat)\<rfloor> = 7378697629483820"
  by (simp add: floor_eq_iff)

lemma literal_0_0001: "round64 (1 / 10000) = Num (7378697629483821 / 2 ^ 66)"
  by (simp add: round64_def exponent64_def binade_down.simps pow2_def round_even_def Let_def
                floor_literal)

lemma not_exceeds64_same [simp]: "\<not> exceeds64 a a"
  by (simp add: exceeds64_def double_sub_def literal_0_0001)

lemma geoSuccess_significant64:
  "significant64 (location s) la lo \<Longrightarrow>
   geoSuccess la lo s = (addLog ''Location updated'' s)\<lparr>location := Some (la, lo)\<rparr>"
  by (auto simp: significant64_def exceeds64_def geoSuccess_def split: option.splits)

lemma geoSuccess_noise64: "\<not> significant64 (location s) la lo \<Longrightarrow> geoSuccess la lo s = s"
  by (auto simp: significant64_def exceeds64_def geoSuccess_def split: option.splits)

lemma significant64_differs: "significant64 prev la lo \<Longrightarrow> prev \<noteq> Some (la, lo)"
  by (auto simp: significant64_def)

lemma logs_addLog:
  "logs (addLog m s) =
     (if 20 < length (logs s) then drop (length (logs s) - 19) (logs s) else logs s) @ [(now s, m)]"
  by (simp add: addLog_def append_entry_def slice_last_def)

text \<open>Readings that differ by at most one ten-thousandth are never accepted.\<close>

lemma binade_down_ge: "j \<le> binade_down x j"
proof (induction x j rule: binade_down.induct)
  case (1 x k)
  then show ?case by (subst binade_down.simps) (auto simp: Suc_le_eq intro: less_imp_le_nat)
qed

lemma binade_down_gt: "x < 1 / 2 ^ m \<Longrightarrow> j + m < 1022 \<Longrightarrow> j + m < binade_down x j"
proof (induction m arbitrary: x j)
  case 0
  then have "binade_down x j = binade_down (2 * x) (Suc j)" by (subst binade_down.simps) simp
  then show ?case using binade_down_ge [of "Suc j" "2 * x"] by simp
next
  case (Suc m)
  have "(1::rat) \<le> 2 ^ Suc m" by (rule one_le_power) simp
  then have "1 / 2 ^ Suc m \<le> (1::rat)" by (simp add: field_simps)
  with Suc.prems(1) have "x < 1" by (rule less_le_trans)
  moreover have "j < 1022" using Suc.prems(2) by simp
  ultimately have "binade_down x j = binade_down (2 * x) (Suc j)"
    by (subst binade_down.simps) simp
  moreover have "2 * x < 1 / 2 ^ m" using Suc.prems(1) by (simp add: field_simps)
  ultimately show ?case using Suc.IH [of "2 * x" "Suc j"] Suc.prems(2) by simp
qed

lemma round_even_le: "n \<le> of_int m \<Longrightarrow> round_even n \<le> m"
proof -
  assume n: "n \<le> of_int m"
  then have f: "\<lfloor>n\<rfloor> \<le> m" by (simp add: floor_le_iff) 
  show ?thesis
  proof (cases "\<lfloor>n\<rfloor> = m")
    case True
    then have "n - of_int \<lfloor>n\<rfloor> \<le> 0" using n by simp
    then show ?thesis using True by (simp add: round_even_def Let_def)
  next
    case False
    with f have "\<lfloor>n\<rfloor> + 1 \<le> m" by simp
    then show ?thesis by (auto simp: round_even_def Let_def)
  qed
qed

lemma round_even_nonneg: "0 \<le> n \<Longrightarrow> 0 \<le> round_even n"
  by (auto simp: round_even_def Let_def)


lemma round64_small:
  assumes "0 < t" and "t \<le> 1 / 10000"
  shows "\<exists>y. 0 \<le> y \<and> y \<le> 7378697629483821 / 2 ^ 66
             \<and> round64 t = Num y \<and> round64 (- t) = Num (- y)"
proof -
  let ?k = "binade_down t 0"
  let ?q = "1 / 2 ^ (?k + 52) :: rat"
  let ?M = "7378697629483821 :: int"
  have "t < 1 / 2 ^ 13" using assms(2) by simp
  from binade_down_gt [OF this, of 0] have k: "14 \<le> ?k" by simp
  have t1: "\<not> 1 \<le> t" using assms(2) by simp
  have e: "exponent64 t = - int ?k" using t1 by (simp add: exponent64_def)
  have q: "pow2 (exponent64 \<bar>t\<bar> - 52) = ?q"
    using assms(1) by (simp add: e pow2_def nat_add_distrib)
  have kk: "?k + 52 = 66 + (?k - 14)" using k by simp
  have "t / ?q \<le> (7378697629483821 / 2 ^ 66) / ?q"
    using assms(2) by (intro divide_right_mono) simp_all
  also have "(7378697629483821 / 2 ^ 66) / ?q = of_int (?M * 2 ^ (?k - 14))"
    by (subst kk) (simp add: power_add)
  finally have "round_even (t / ?q) \<le> ?M * 2 ^ (?k - 14)" by (rule round_even_le)
  then have "(of_int (round_even (t / ?q)) :: rat) \<le> of_int (?M * 2 ^ (?k - 14))"
    by (simp only: of_int_le_iff)
  then have "of_int (round_even (t / ?q)) * ?q \<le> of_int (?M * 2 ^ (?k - 14)) * ?q"
    by (intro mult_right_mono) simp_all
  also have "of_int (?M * 2 ^ (?k - 14)) * ?q = 7378697629483821 / 2 ^ 66"
    by (subst kk) (simp add: power_add)
  finally have y: "of_int (round_even (t / ?q)) * ?q \<le> 7378697629483821 / 2 ^ 66" .
  have "0 \<le> t / ?q" using assms(1) by simp
  then have "0 \<le> round_even (t / ?q)" by (rule round_even_nonneg)
  then have y0: "0 \<le> of_int (round_even (t / ?q)) * ?q" by simp
  have "(7378697629483821 / 2 ^ 66 :: rat) < pow2 1024" by (simp add: pow2_def)
  with y have "of_int (round_even (t / ?q)) * ?q < pow2 1024" by (rule le_less_trans)
  then have fin: "\<not> pow2 1024 \<le> of_int (round_even (t / ?q)) * ?q" by (simp only: not_le)
  have "round64 t = Num (of_int (round_even (t / ?q)) * ?q)"
    using assms(1) fin q by (simp add: round64_def Let_def)
  moreover have "round64 (- t) = Num (- (of_int (round_even (t / ?q)) * ?q))"
    using assms(1) fin q by (simp add: round64_def Let_def)
  ultimately show ?thesis using y y0 by blast
qed

lemma within_threshold_not_exceeds64:
  assumes "\<bar>a - b\<bar> \<le> 1 / 10000"
  shows "\<not> exceeds64 a b"
proof (cases "a - b = 0")
  case True
  then show ?thesis by simp
next
  case False
  consider "0 < a - b" | "0 < - (a - b)" using False by linarith
  then show ?thesis
  proof cases
    case 1
    with assms have "a - b \<le> 1 / 10000" by simp
    from round64_small [OF 1 this] obtain y where "0 \<le> y" "y \<le> 7378697629483821 / 2 ^ 66"
      "round64 (a - b) = Num y" by blast
    then show ?thesis by (simp add: exceeds64_def double_sub_def literal_0_0001)
  next
    case 2
    with assms have "- (a - b) \<le> 1 / 10000" by simp
    from round64_small [OF 2 this] obtain y where "0 \<le> y" "y \<le> 7378697629483821 / 2 ^ 66"
      "round64 (- (- (a - b))) = Num (- y)" by blast
    then show ?thesis by (simp add: exceeds64_def double_sub_def literal_0_0001)
  qed
qed


text \<open>Readings that differ by at least the next double above 0.0001 are always accepted.\<close>

lemma pow2_powi: "pow2 i = 2 powi i"
  by (simp add: pow2_def power_int_def power_one_over)

lemma pow2_pos [simp]: "0 < pow2 i"
  by (simp add: pow2_def)

lemma pow2_nonneg [simp]: "0 \<le> pow2 i"
  by (simp add: pow2_def)

lemma pow2_52: "2 ^ 52 * pow2 (i - 52) = pow2 i"
proof -
  have "pow2 i = 2 powi (52 + (i - 52))" by (simp add: pow2_powi)
  also have "\<dots> = 2 powi 52 * 2 powi (i - 52)" by (rule power_int_add) simp
  finally show ?thesis by (simp add: pow2_powi)
qed

lemma round_even_ge: "of_int m \<le> n \<Longrightarrow> m \<le> round_even n"
proof -
  assume "of_int m \<le> n"
  then have "m \<le> \<lfloor>n\<rfloor>" by (simp add: le_floor_iff)
  then show ?thesis by (auto simp: round_even_def Let_def)
qed

lemma binade_up_ge: "j \<le> binade_up x j"
proof (induction x j rule: binade_up.induct)
  case (1 x k)
  then show ?case by (subst binade_up.simps) (auto simp: Suc_le_eq intro: less_imp_le_nat)
qed

lemma binade_up_below: "1 \<le> x \<Longrightarrow> 2 ^ (binade_up x j - j) \<le> x"
proof (induction x j rule: binade_up.induct)
  case (1 x k)
  show ?case
  proof (cases "x < 2 \<or> 1024 \<le> k")
    case True
    then have "binade_up x k = k" by (subst binade_up.simps) simp
    then show ?thesis using "1.prems" by simp
  next
    case False
    then have r: "binade_up x k = binade_up (x / 2) (Suc k)" by (subst binade_up.simps) simp
    from False have "1 \<le> x / 2" by simp
    with "1.IH" False have "2 ^ (binade_up (x / 2) (Suc k) - Suc k) \<le> x / 2" by simp
    moreover have "binade_up (x / 2) (Suc k) - k = Suc (binade_up (x / 2) (Suc k) - Suc k)"
      using binade_up_ge [of "Suc k" "x / 2"] by simp
    ultimately show ?thesis by (simp add: r)
  qed
qed

lemma binade_down_le: "1 \<le> 2 ^ m * x \<Longrightarrow> j + m \<le> 1022 \<Longrightarrow> binade_down x j \<le> j + m"
proof (induction m arbitrary: x j)
  case 0
  then show ?case by (subst binade_down.simps) simp
next
  case (Suc m)
  show ?case
  proof (cases "1 \<le> x \<or> 1022 \<le> j")
    case True
    then have "binade_down x j = j" by (subst binade_down.simps) simp
    then show ?thesis by simp
  next
    case False
    then have "binade_down x j = binade_down (2 * x) (Suc j)" by (subst binade_down.simps) simp
    moreover have "1 \<le> 2 ^ m * (2 * x)" using Suc.prems(1) by (simp add: mult.assoc)
    ultimately show ?thesis using Suc.IH [of "2 * x" "Suc j"] Suc.prems(2) by simp
  qed
qed

lemma binade_down_above: "binade_down x j < 1022 \<Longrightarrow> 1 \<le> 2 ^ (binade_down x j - j) * x"
proof (induction x j rule: binade_down.induct)
  case (1 x k)
  show ?case
  proof (cases "1 \<le> x \<or> 1022 \<le> k")
    case True
    then have r: "binade_down x k = k" by (subst binade_down.simps) simp
    with "1.prems" True show ?thesis by simp
  next
    case False
    then have r: "binade_down x k = binade_down (2 * x) (Suc k)" by (subst binade_down.simps) simp
    with "1.IH" False "1.prems"
    have "1 \<le> 2 ^ (binade_down (2 * x) (Suc k) - Suc k) * (2 * x)" by simp
    moreover have "binade_down (2 * x) (Suc k) - k = Suc (binade_down (2 * x) (Suc k) - Suc k)"
      using binade_down_ge [of "Suc k" "2 * x"] by simp
    ultimately show ?thesis by (simp add: r mult.assoc)
  qed
qed

lemma exponent64_below:
  assumes "7378697629483822 / 2 ^ 66 \<le> t"
  shows "pow2 (exponent64 t) \<le> t \<and> - 14 \<le> exponent64 t"
proof (cases "1 \<le> t")
  case True
  from binade_up_below [OF True, of 0] show ?thesis
    using True by (simp add: exponent64_def pow2_def)
next
  case False
  let ?k = "binade_down t 0"
  have "1 \<le> 2 ^ 14 * t" using assms by simp
  from binade_down_le [OF this, of 0] have k: "?k \<le> 14" by simp
  then have "?k < 1022" by simp
  from binade_down_above [OF this] have "1 \<le> 2 ^ ?k * t" by simp
  then have "1 / 2 ^ ?k \<le> t" by (simp add: field_simps)
  moreover have "pow2 (- int ?k) = 1 / 2 ^ ?k" by (simp add: pow2_def)
  ultimately show ?thesis using False k by (simp add: exponent64_def)
qed

lemma round64_large:
  assumes "7378697629483822 / 2 ^ 66 \<le> t"
  shows "js_gt (js_abs (round64 t)) (Num (7378697629483821 / 2 ^ 66))
         \<and> js_gt (js_abs (round64 (- t))) (Num (7378697629483821 / 2 ^ 66))"
proof -
  let ?e = "exponent64 t"
  let ?q = "pow2 (?e - 52)"
  let ?y = "of_int (round_even (t / ?q)) * ?q"
  have t0: "0 < t" using assms by (rule less_le_trans [rotated]) simp
  from exponent64_below [OF assms] have b: "pow2 ?e \<le> t" and e14: "- 14 \<le> ?e" by simp_all
  have y: "7378697629483822 / 2 ^ 66 \<le> ?y"
  proof (cases "?e = - 14")
    case True
    then have q: "?q = 1 / 2 ^ 66" by (simp add: pow2_def)
    have "of_int 7378697629483822 \<le> t / ?q" using assms by (simp add: q field_simps)
    then have "7378697629483822 \<le> round_even (t / ?q)" by (rule round_even_ge)
    then have "(of_int 7378697629483822 :: rat) \<le> of_int (round_even (t / ?q))"
      by (simp only: of_int_le_iff)
    then have "of_int 7378697629483822 * ?q \<le> ?y" by (intro mult_right_mono) simp_all
    then show ?thesis by (simp add: q)
  next
    case False
    with e14 have e13: "- 13 \<le> ?e" by simp
    have p: "2 ^ 52 * ?q = pow2 ?e" by (rule pow2_52)
    have "2 ^ 52 * ?q \<le> t" unfolding p by (rule b)
    then have "of_int (2 ^ 52) \<le> t / ?q" by (simp add: field_simps)
    then have "2 ^ 52 \<le> round_even (t / ?q)" by (rule round_even_ge)
    then have "(of_int (2 ^ 52) :: rat) \<le> of_int (round_even (t / ?q))"
      by (simp only: of_int_le_iff)
    then have "of_int (2 ^ 52) * ?q \<le> ?y" by (intro mult_right_mono) simp_all
    then have "pow2 ?e \<le> ?y" unfolding p [symmetric] by simp
    moreover have "pow2 (- 13) \<le> pow2 ?e"
      using e13 unfolding pow2_powi by (intro power_int_increasing) simp_all
    moreover have "(7378697629483822 / 2 ^ 66 :: rat) \<le> pow2 (- 13)" by (simp add: pow2_def)
    ultimately show ?thesis by linarith
  qed
  then have c: "7378697629483821 / 2 ^ 66 < ?y" by simp
  then have y0: "0 < ?y" by (rule less_trans [rotated]) simp
  have a: "\<bar>t\<bar> = t" "\<bar>- t\<bar> = t" using t0 by simp_all
  show ?thesis
  proof (cases "pow2 1024 \<le> ?y")
    case True
    then show ?thesis using t0 by (simp add: round64_def Let_def a)
  next
    case False
    then have "round64 t = Num ?y" and "round64 (- t) = Num (- ?y)"
      using t0 by (simp_all add: round64_def Let_def a)
    then show ?thesis using c y0 by simp
  qed
qed

lemma beyond_threshold_exceeds64:
  assumes "7378697629483822 / 2 ^ 66 \<le> \<bar>a - b\<bar>"
  shows "exceeds64 a b"
proof (cases "0 \<le> a - b")
  case True
  with assms have "7378697629483822 / 2 ^ 66 \<le> a - b" by simp
  from round64_large [OF this] show ?thesis
    by (simp add: exceeds64_def double_sub_def literal_0_0001)
next
  case False
  with assms have "7378697629483822 / 2 ^ 66 \<le> - (a - b)" by simp
  from round64_large [OF this] show ?thesis
    by (simp add: exceeds64_def double_sub_def literal_0_0001)
qed


lemma location_readings:
  "location (foldl (\<lambda>u r. geoSuccess (fst r) (snd r) u) s rs) = accepted (location s) rs"
proof (induction rs arbitrary: s)
  case Nil
  show ?case by (simp add: accepted_def)
next
  case (Cons r rs)
  have "location (geoSuccess (fst r) (snd r) s)
        = (if significant64 (location s) (fst r) (snd r) then Some r else location s)"
    using geoSuccess_significant64 [of s "fst r" "snd r"] geoSuccess_noise64 [of s "fst r" "snd r"]
    by (cases "significant64 (location s) (fst r) (snd r)") simp_all
  with Cons.IH [of "geoSuccess (fst r) (snd r) s"] show ?case by (simp add: accepted_def)
qed

lemma exceeds64_round:
  "exceeds64 a b = js_gt (js_abs (round64 (a - b))) (Num (7378697629483821 / 2 ^ 66))"
  by (simp add: exceeds64_def double_sub_def literal_0_0001)

lemma floor_c1: "\<lfloor>118059162071741137 / (16::rat)\<rfloor> = 7378697629483821"
  by (simp add: floor_eq_iff)

lemma round64_c: "round64 (7378697629483821 / 2 ^ 66) = Num (7378697629483821 / 2 ^ 66)"
  by (simp add: round64_def exponent64_def binade_down.simps pow2_def round_even_def Let_def)

lemma round64_c1:
  "round64 (- (7378697629483821 / 2 ^ 66) - 1 / 2 ^ 70) = Num (- (7378697629483821 / 2 ^ 66))"
  by (simp add: round64_def exponent64_def binade_down.simps pow2_def round_even_def Let_def floor_c1)

lemma round64_c2: "round64 (- (7378697629483821 / 2 ^ 66)) = Num (- (7378697629483821 / 2 ^ 66))"
  by (simp add: round64_def exponent64_def binade_down.simps pow2_def round_even_def Let_def)

lemma round64_c3: "round64 (1 / 2 ^ 70) = Num (1 / 2 ^ 70)"
  by (simp add: round64_def exponent64_def binade_down.simps pow2_def round_even_def Let_def)

lemma location_first_reading: "location (geoSuccess la lo (mount t True None True)) = Some (la, lo)"
  by (simp add: geoSuccess_def mount_def Let_def addLog_def)

text \<open>
  Claim C7, as stated, fails.  The page has accepted the reading (0, 0); the next
  reading has latitude 7378697629483821 / 2^66, the double that the literal 0.0001
  denotes.  It differs from the accepted latitude by more than one ten-thousandth of a
  degree, so it is significant in the words of the claim, but the test of the code is
  \<open>0.0001 > 0.0001\<close> and the reading is discarded.  Reading 0.0001 as that double does
  not save the claim: after the accepted reading (-0.0001, 0) the reading (2^-70, 0)
  differs by more than the double, the subtraction rounds the difference down to it,
  and the reading is discarded as well.  All four coordinates are doubles.
\<close>

theorem location_filter_rounding:
  "significant (Some (0, 0)) (7378697629483821 / 2 ^ 66) 0
   \<and> round64 (7378697629483821 / 2 ^ 66) = Num (7378697629483821 / 2 ^ 66)
   \<and> location (geoSuccess 0 0 (mount 7 True None True)) = Some (0, 0)
   \<and> geoSuccess (7378697629483821 / 2 ^ 66) 0 (geoSuccess 0 0 (mount 7 True None True))
       = geoSuccess 0 0 (mount 7 True None True)
   \<and> js_gt (Num \<bar>1 / 2 ^ 70 - (- (7378697629483821 / 2 ^ 66))\<bar>) (round64 (1 / 10000))
   \<and> round64 (1 / 2 ^ 70) = Num (1 / 2 ^ 70)
   \<and> round64 (- (7378697629483821 / 2 ^ 66)) = Num (- (7378697629483821 / 2 ^ 66))
   \<and> location (geoSuccess (- (7378697629483821 / 2 ^ 66)) 0 (mount 7 True None True))
       = Some (- (7378697629483821 / 2 ^ 66), 0)
   \<and> geoSuccess (1 / 2 ^ 70) 0 (geoSuccess (- (7378697629483821 / 2 ^ 66)) 0 (mount 7 True None True))
       = geoSuccess (- (7378697629483821 / 2 ^ 66)) 0 (mount 7 True None True)"
proof -
  let ?c = "7378697629483821 / 2 ^ 66 :: rat"
  let ?s = "geoSuccess 0 0 (mount 7 True None True)"
  let ?u = "geoSuccess (- ?c) 0 (mount 7 True None True)"
  have 1: "significant (Some (0, 0)) ?c 0" by (simp add: significant_def)
  have 2: "location ?s = Some (0, 0)" by (rule location_first_reading)
  have "\<not> significant64 (location ?s) ?c 0"
    unfolding 2 significant64_def exceeds64_round using round64_c2 by simp
  then have 3: "geoSuccess ?c 0 ?s = ?s" by (rule geoSuccess_noise64)
  have 4: "js_gt (Num \<bar>1 / 2 ^ 70 - (- ?c)\<bar>) (round64 (1 / 10000))"
    by (simp add: literal_0_0001)
  have 5: "location ?u = Some (- ?c, 0)" by (rule location_first_reading)
  have "\<not> significant64 (location ?u) (1 / 2 ^ 70) 0"
    unfolding 5 significant64_def exceeds64_round using round64_c1 by simp
  then have 6: "geoSuccess (1 / 2 ^ 70) 0 ?u = ?u" by (rule geoSuccess_noise64)
  from 1 round64_c 2 3 4 round64_c3 round64_c2 5 6 show ?thesis by (intro conjI)
qed

text \<open>
  Claim C7, as amended.  A position reading changes the stored location if and only if
  there is no accepted reading yet, or the binary64 difference between the accepted
  and the new latitude, or longitude, is in absolute value greater than the double
  0.0001, which is 7378697629483821 / 2^66.  An accepted reading becomes the stored
  location and appends the entry "Location updated" to the log, after the cut of a log
  of more than 20 entries to its last 19; any other reading leaves the whole state,
  the location and the log included, as it was.  Hence along every sequence of
  readings the stored location is the last accepted one.  In degrees: a reading within
  one ten-thousandth of the accepted one in both axes is always discarded, and a
  reading that differs in an axis by at least 7378697629483822 / 2^66, the next double
  above 0.0001, is always accepted; in between, the rounding of the subtraction
  decides.
\<close>

theorem location_filter_binary64:
  "(location (geoSuccess la lo s) \<noteq> location s \<longleftrightarrow> significant64 (location s) la lo)
   \<and> (significant64 (location s) la lo \<longrightarrow>
        location (geoSuccess la lo s) = Some (la, lo)
        \<and> logs (geoSuccess la lo s)
            = (if 20 < length (logs s) then drop (length (logs s) - 19) (logs s) else logs s)
              @ [(now s, ''Location updated'')])
   \<and> (\<not> significant64 (location s) la lo \<longrightarrow> geoSuccess la lo s = s)
   \<and> handle (Position la lo) s = (if geolocation s then geoSuccess la lo s else s)
   \<and> location (foldl (\<lambda>u r. geoSuccess (fst r) (snd r) u) s rs) = accepted (location s) rs
   \<and> significant64 None la lo
   \<and> (significant64 (Some (a, b)) la lo \<longleftrightarrow> exceeds64 a la \<or> exceeds64 b lo)
   \<and> exceeds64 a la = js_gt (js_abs (round64 (a - la))) (Num (7378697629483821 / 2 ^ 66))
   \<and> (\<bar>a - la\<bar> \<le> 1 / 10000 \<longrightarrow> \<not> exceeds64 a la)
   \<and> (7378697629483822 / 2 ^ 66 \<le> \<bar>a - la\<bar> \<longrightarrow> exceeds64 a la)"
proof -
  have 1: "location (geoSuccess la lo s) \<noteq> location s \<longleftrightarrow> significant64 (location s) la lo"
  proof (cases "significant64 (location s) la lo")
    case True
    from significant64_differs [OF True] geoSuccess_significant64 [OF True] True
    show ?thesis by simp
  next
    case False
    from geoSuccess_noise64 [OF False] False show ?thesis by simp
  qed
  have 2: "significant64 (location s) la lo \<longrightarrow>
        location (geoSuccess la lo s) = Some (la, lo)
        \<and> logs (geoSuccess la lo s)
            = (if 20 < length (logs s) then drop (length (logs s) - 19) (logs s) else logs s)
              @ [(now s, ''Location updated'')]"
    by (auto simp: significant64_def exceeds64_def geoSuccess_def addLog_def append_entry_def
          slice_last_def split: option.splits)
  have 3: "\<not> significant64 (location s) la lo \<longrightarrow> geoSuccess la lo s = s"
    by (auto simp: significant64_def exceeds64_def geoSuccess_def split: option.splits)
  have 4: "handle (Position la lo) s = (if geolocation s then geoSuccess la lo s else s)"
    by simp
  have 5: "significant64 None la lo"
    and 6: "significant64 (Some (a, b)) la lo \<longleftrightarrow> exceeds64 a la \<or> exceeds64 b lo"
    by (simp_all add: significant64_def)
  have 7: "\<bar>a - la\<bar> \<le> 1 / 10000 \<longrightarrow> \<not> exceeds64 a la"
    using within_threshold_not_exceeds64 [of a la] by blast
  have 8: "7378697629483822 / 2 ^ 66 \<le> \<bar>a - la\<bar> \<longrightarrow> exceeds64 a la"
    using beyond_threshold_exceeds64 [of a la] by blast
  from 1 2 3 4 location_readings [of s rs] 5 6 exceeds64_round [of a la] 7 8
  show ?thesis by (intro conjI)
qed

theorem location_filter_binary64_witness:
  "location (geoSuccess 10 20 (mount 7 True None True)) = Some (10, 20)
   \<and> \<bar>10 - (10 + 1 / 2 ^ 14)\<bar> \<le> (1 / 10000 :: rat)
   \<and> geoSuccess (10 + 1 / 2 ^ 14) 20 (geoSuccess 10 20 (mount 7 True None True))
       = geoSuccess 10 20 (mount 7 True None True)
   \<and> (7378697629483822 / 2 ^ 66 :: rat) \<le> \<bar>20 - (20 + 1 / 2 ^ 13)\<bar>
   \<and> location (geoSuccess 10 (20 + 1 / 2 ^ 13) (geoSuccess 10 20 (mount 7 True None True)))
       = Some (10, 20 + 1 / 2 ^ 13)
   \<and> logs (geoSuccess 10 (20 + 1 / 2 ^ 13) (geoSuccess 10 20 (mount 7 True None True)))
       = [(7, ''Location updated''), (7, ''Location updated'')]"
proof -
  let ?s = "geoSuccess 10 20 (mount 7 True None True)"
  have l: "location ?s = Some (10, 20)" by (rule location_first_reading)
  have g: "logs ?s = [(7, ''Location updated'')]" "now ?s = 7"
    by (simp_all add: geoSuccess_def mount_def Let_def addLog_def append_entry_def)
  have n: "\<bar>10 - (10 + 1 / 2 ^ 14)\<bar> \<le> (1 / 10000 :: rat)" "\<bar>20 - 20\<bar> \<le> (1 / 10000 :: rat)"
    and f: "(7378697629483822 / 2 ^ 66 :: rat) \<le> \<bar>20 - (20 + 1 / 2 ^ 13)\<bar>"
    by simp_all
  from location_filter_binary64 [where la = "10 + 1 / 2 ^ 14" and lo = 20 and s = ?s
      and a = 10 and b = 20 and rs = "[]"] n(1)
  have a: "\<not> exceeds64 10 (10 + 1 / 2 ^ 14)"
    and i: "\<not> significant64 (location ?s) (10 + 1 / 2 ^ 14) 20 \<longrightarrow>
            geoSuccess (10 + 1 / 2 ^ 14) 20 ?s = ?s"
    by blast+
  from location_filter_binary64 [where la = 20 and lo = 20 and s = ?s
      and a = 20 and b = 20 and rs = "[]"] n(2)
  have b: "\<not> exceeds64 20 20" by blast
  from location_filter_binary64 [where la = "10 + 1 / 2 ^ 14" and lo = 20 and s = ?s
      and a = 10 and b = 20 and rs = "[]"] a b
  have "\<not> significant64 (Some (10, 20)) (10 + 1 / 2 ^ 14) 20" by blast
  with i have 1: "geoSuccess (10 + 1 / 2 ^ 14) 20 ?s = ?s" unfolding l by blast
  from location_filter_binary64 [where la = "20 + 1 / 2 ^ 13" and lo = 20 and s = ?s
      and a = 20 and b = 20 and rs = "[]"] f
  have c: "exceeds64 20 (20 + 1 / 2 ^ 13)" by blast
  from location_filter_binary64 [where la = 10 and lo = "20 + 1 / 2 ^ 13" and s = ?s
      and a = 10 and b = 20 and rs = "[]"]
  have "significant64 (Some (10, 20)) 10 (20 + 1 / 2 ^ 13) \<longleftrightarrow>
          exceeds64 10 10 \<or> exceeds64 20 (20 + 1 / 2 ^ 13)"
    and j: "significant64 (location ?s) 10 (20 + 1 / 2 ^ 13) \<longrightarrow>
        location (geoSuccess 10 (20 + 1 / 2 ^ 13) ?s) = Some (10, 20 + 1 / 2 ^ 13)
        \<and> logs (geoSuccess 10 (20 + 1 / 2 ^ 13) ?s)
            = (if 20 < length (logs ?s) then drop (length (logs ?s) - 19) (logs ?s) else logs ?s)
              @ [(now ?s, ''Location updated'')]"
    by blast+
  with c have "significant64 (location ?s) 10 (20 + 1 / 2 ^ 13)" unfolding l by blast
  with j have 2: "location (geoSuccess 10 (20 + 1 / 2 ^ 13) ?s) = Some (10, 20 + 1 / 2 ^ 13)"
    and 3: "logs (geoSuccess 10 (20 + 1 / 2 ^ 13) ?s)
            = (if 20 < length (logs ?s) then drop (length (logs ?s) - 19) (logs ?s) else logs ?s)
              @ [(now ?s, ''Location updated'')]"
    by blast+
  from 3 have 4: "logs (geoSuccess 10 (20 + 1 / 2 ^ 13) ?s)
            = [(7, ''Location updated''), (7, ''Location updated'')]"
    unfolding g by simp
  from l n(1) 1 f 2 4 show ?thesis by (intro conjI)
qed

subsection \<open>Timers that are due\<close>

lemma run_until_idle: "next_due T (timers s) = None \<Longrightarrow> run_until T s = s\<lparr>now := max (now s) T\<rparr>"
  by (simp add: run_until.simps)

lemma run_until_fire: "next_due T (timers s) = Some t \<Longrightarrow> run_until T s = run_until T (fire t s)"
  by (simp add: run_until.simps)

lemma earliest_None: "earliest ts = None \<longleftrightarrow> ts = []"
  by (cases ts) (auto split: option.splits)

lemma earliest_least: "earliest ts = Some t \<Longrightarrow> u \<in> set ts \<Longrightarrow> fst (snd t) \<le> fst (snd u)"
  by (induction ts arbitrary: t) (fastforce simp: earliest_None split: option.splits if_splits)+

lemma next_due_None: "next_due T ts = None \<Longrightarrow> u \<in> set ts \<Longrightarrow> T < fst (snd u)"
  using earliest_least [of ts _ u]
  by (fastforce simp: next_due_def earliest_None split: option.splits if_splits)

lemma next_due_Some:
  "next_due T ts = Some t \<Longrightarrow> t \<in> set ts \<and> fst (snd t) \<le> T \<and> (\<forall>u\<in>set ts. fst (snd t) \<le> fst (snd u))"
  using earliest_least [of ts t] earliest_in [of ts t]
  by (auto simp: next_due_def split: option.splits if_splits)

subsection \<open>The invariant of running states\<close>

lemma hygienic_mount: "hygienic (mount t geo conn wrk)"
  by (simp add: mount_def Let_def hygienic_def addLog_def setTimeout_def fresh_throttle_def
                last_ran_def older_def
         split: option.splits)

lemma hygienic_addLog [simp]: "hygienic (addLog m s) = hygienic s"
  by (simp add: hygienic_def addLog_def)

lemma hygienic_triggerEmergency: "hygienic s \<Longrightarrow> hygienic (triggerEmergency sc r s)"
  by (auto simp: hygienic_def triggerEmergency_def setTimeout_def addLog_def list_all_iff older_def
           split: option.splits)

lemma hygienic_handleActivity: "hygienic s \<Longrightarrow> hygienic (handleActivity first_render s)"
  by (auto simp: hygienic_def handleActivity_def setTimeout_def clearTimeout_def Let_def
                 list_all_iff distinct_map_filter older_def
           split: option.splits)

lemma hygienic_handleNetworkEmergency: "hygienic s \<Longrightarrow> hygienic (handleNetworkEmergency sc s)"
  by (auto simp: hygienic_def handleNetworkEmergency_def setTimeout_def clearTimeout_def
                 addLog_def Let_def list_all_iff distinct_map_filter older_def
           split: option.splits)

lemma hygienic_updateNetworkStatus: "hygienic s \<Longrightarrow> hygienic (updateNetworkStatus sc s)"
  by (simp add: updateNetworkStatus_plain hygienic_def split: option.splits)


lemma timers_handleActivity:
  "timers (handleActivity sc s) =
     filter (\<lambda>t. Some (fst t) \<noteq> inactivityTimer s) (timers s)
       @ [(nextId s, now s + 45000, InactivityTimeout sc)]"
  by (simp add: handleActivity_def setTimeout_def clearTimeout_def Let_def)

lemma now_handleActivity [simp]: "now (handleActivity sc s) = now s"
  by (simp add: handleActivity_def setTimeout_def clearTimeout_def Let_def)

lemma hygienic_set_throttle:
  "hygienic x \<Longrightarrow> list_all (\<lambda>t. snd (snd t) \<noteq> ThrottledActivity) (timers x)
   \<Longrightarrow> last_ran v \<le> now x \<Longrightarrow> hygienic (x\<lparr>activityThrottle := v\<rparr>)"
  by (auto simp: hygienic_def list_all_iff)

lemma run_handleActivity_hygienic:
  assumes h: "hygienic s" and n: "list_all (\<lambda>t. snd (snd t) \<noteq> ThrottledActivity) (timers s)"
  shows "hygienic ((handleActivity first_render s)
                     \<lparr>activityThrottle := (activityThrottle s)\<lparr>lastRan := Some (now s)\<rparr>\<rparr>)"
proof -
  have "list_all (\<lambda>t. snd (snd t) \<noteq> ThrottledActivity) (timers (handleActivity first_render s))"
    using n by (auto simp: timers_handleActivity list_all_iff)
  moreover have "last_ran ((activityThrottle s)\<lparr>lastRan := Some (now s)\<rparr>) \<le> now (handleActivity first_render s)"
    by (simp add: last_ran_def)
  ultimately show ?thesis using hygienic_handleActivity [OF h] by (intro hygienic_set_throttle)
qed

lemma hygienic_throttledHandler: "hygienic s \<Longrightarrow> hygienic (throttledHandler s)"
proof -
  assume h: "hygienic s"
  show ?thesis
  proof (cases "last_ran (activityThrottle s) = 0")
    case True
    then have "throttledHandler s = (handleActivity first_render s)\<lparr>activityThrottle := (activityThrottle s)\<lparr>lastRan := Some (now s)\<rparr>\<rparr>"
      by (auto simp: throttledHandler_def throttled_def run_throttled_def last_ran_def Let_def
            split: option.splits)
    moreover have "list_all (\<lambda>t. snd (snd t) \<noteq> ThrottledActivity) (timers s)"
      using h True by (auto simp: hygienic_def list_all_iff)
    ultimately show ?thesis using run_handleActivity_hygienic [OF h] by simp
  next
    case False
    then obtain r where r: "lastRan (activityThrottle s) = Some r" "0 < r"
      by (auto simp: last_ran_def split: option.splits)
    then show ?thesis using h
      by (auto simp: throttledHandler_def throttled_def defer_throttled_def last_ran_def Let_def
            hygienic_def list_all_iff setTimeout_def clearTimeout_def distinct_map_filter older_def
            split: option.splits)
  qed
qed

lemma hygienic_throttledUpdate: "hygienic s \<Longrightarrow> hygienic (throttledUpdate s)"
  by (auto simp: throttledUpdate_def throttled_def run_throttled_def defer_throttled_def
        updateNetworkStatus_plain hygienic_def setTimeout_def clearTimeout_def Let_def list_all_iff
        distinct_map_filter older_def
        split: option.splits prod.splits if_splits)

lemma hygienic_handle: "hygienic s \<Longrightarrow> hygienic (handle e s)"
proof (cases e)
  case (ConnectionChange c)
  assume h: "hygienic s"
  then have "hygienic (s\<lparr>connection := Some c\<rparr>)" by (simp add: hygienic_def)
  then show ?thesis using ConnectionChange h by (simp add: hygienic_throttledUpdate split: option.splits)
next
  case (Position la lo)
  assume h: "hygienic s"
  then have "hygienic ((addLog ''Location updated'' s)\<lparr>location := Some (la, lo)\<rparr>)"
    by (simp add: hygienic_def addLog_def)
  then show ?thesis using Position h by (auto simp: geoSuccess_def split: option.splits)
qed (simp_all add: simulateAccident_def hygienic_triggerEmergency hygienic_throttledHandler geoError_def)

lemma hygienic_run_callback:
  assumes "hygienic s" and "cb = ThrottledActivity \<longrightarrow> last_ran (activityThrottle s) + 1000 \<le> now s \<and> 0 < last_ran (activityThrottle s)"
    and "cb = ThrottledActivity \<longrightarrow> list_all (\<lambda>t. snd (snd t) \<noteq> ThrottledActivity) (timers s)"
  shows "hygienic (run_callback cb s)"
proof (cases cb)
  case InitNetwork
  then show ?thesis using assms by (simp add: hygienic_updateNetworkStatus)
next
  case ThrottledUpdate
  then show ?thesis using assms(1)
    by (auto simp: throttled_timer_def run_throttled_def updateNetworkStatus_plain hygienic_def Let_def
          split: option.splits)
next
  case ThrottledActivity
  with assms(2) obtain r where r: "lastRan (activityThrottle s) = Some r" "r + 1000 \<le> now s"
    by (auto simp: last_ran_def split: option.splits)
  then have "run_callback cb s = (handleActivity first_render s)\<lparr>activityThrottle := (activityThrottle s)\<lparr>lastRan := Some (now s)\<rparr>\<rparr>"
    using ThrottledActivity
    by (auto simp: throttled_timer_def run_throttled_def Let_def)
  moreover have "list_all (\<lambda>t. snd (snd t) \<noteq> ThrottledActivity) (timers s)"
    using assms(3) ThrottledActivity by simp
  ultimately show ?thesis using run_handleActivity_hygienic [OF assms(1)] by simp
next
  case (InactivityTimeout sc)
  have "hygienic (s\<lparr>isInactive := True\<rparr>)" using assms(1) by (simp add: hygienic_def)
  then have "hygienic (addLog ''User inactive - possible emergency'' (s\<lparr>isInactive := True\<rparr>))"
    by simp
  then show ?thesis using InactivityTimeout by (simp add: inactivity_timeout_def hygienic_triggerEmergency)
next
  case (EscalationCheck sc)
  then show ?thesis using assms(1) by (simp add: escalation_check_def hygienic_triggerEmergency)
next
  case Resolve
  have "hygienic (s\<lparr>emergencyMode := False\<rparr>)" using assms(1) by (simp add: hygienic_def)
  then show ?thesis using Resolve by (simp add: resolve_def)
qed

lemma hygienic_fire:
  assumes h: "hygienic s" and n: "next_due T (timers s) = Some t"
  shows "hygienic (fire t s)"
proof -
  let ?s = "s\<lparr>timers := filter (\<lambda>u. fst u \<noteq> fst t) (timers s), now := max (now s) (fst (snd t))\<rparr>"
  from next_due_Some [OF n] have t: "t \<in> set (timers s)"
    and least: "\<forall>u\<in>set (timers s). fst (snd t) \<le> fst (snd u)" by simp_all
  from h t have nowt: "now s \<le> fst (snd t)" by (auto simp: hygienic_def list_all_iff)
  have hs: "hygienic ?s"
    using h least nowt by (auto simp: hygienic_def list_all_iff distinct_map_filter)
  have c: "snd (snd t) = ThrottledActivity \<longrightarrow>
             last_ran (activityThrottle ?s) + 1000 \<le> now ?s \<and> 0 < last_ran (activityThrottle ?s)"
    using h t nowt by (auto simp: hygienic_def list_all_iff)
  have "snd (snd t) = ThrottledActivity \<longrightarrow>
          list_all (\<lambda>u. snd (snd u) \<noteq> ThrottledActivity) (timers ?s)"
  proof
    assume ta: "snd (snd t) = ThrottledActivity"
    have key: "\<And>u. u \<in> set (timers s) \<Longrightarrow> snd (snd u) = ThrottledActivity
                 \<Longrightarrow> lastFunc (activityThrottle s) = Some (fst u)"
      using h by (auto simp: hygienic_def list_all_iff)
    from key [OF t ta] have "lastFunc (activityThrottle s) = Some (fst t)" .
    then have "\<And>u. u \<in> set (timers s) \<Longrightarrow> snd (snd u) = ThrottledActivity \<Longrightarrow> fst u = fst t"
      using key by fastforce
    then show "list_all (\<lambda>u. snd (snd u) \<noteq> ThrottledActivity) (timers ?s)"
      by (auto simp: list_all_iff)
  qed
  with hs c show ?thesis unfolding fire_def by (intro hygienic_run_callback) simp_all
qed

lemma hygienic_run_until: "hygienic s \<Longrightarrow> hygienic (run_until T s)"
proof (induction T s rule: run_until.induct)
  case (1 T s)
  show ?case
  proof (cases "next_due T (timers s)")
    case None
    then have "\<forall>u\<in>set (timers s). T < fst (snd u)" using next_due_None by blast
    then show ?thesis using "1.prems" None
      by (auto simp: run_until_idle hygienic_def list_all_iff)
  next
    case (Some t)
    with "1.prems" have "hygienic (fire t s)" by (intro hygienic_fire)
    with "1.IH" Some show ?thesis by (simp add: run_until_fire)
  qed
qed


lemma hygienic_play: "hygienic s \<Longrightarrow> hygienic (play es s)"
proof (induction es arbitrary: s)
  case Nil
  then show ?case by (simp add: play_def)
next
  case (Cons e es)
  have "hygienic (event_at (fst e) (snd e) s)"
    unfolding event_at_def using Cons.prems by (intro hygienic_handle hygienic_run_until)
  with Cons.IH show ?case by (simp add: play_def)
qed

text \<open>Every state that the component reaches from its mount is hygienic.\<close>

lemma reachable_hygienic: "hygienic (run_until T (play es (mount t geo conn wrk)))"
  by (intro hygienic_run_until hygienic_play hygienic_mount)

subsection \<open>No countdown without user input\<close>

lemma list_all_append_entry:
  "list_all P l \<Longrightarrow> P e \<Longrightarrow> list_all P (append_entry e l)"
  by (auto simp: append_entry_def slice_last_def list_all_iff dest: in_set_dropD)

lemma cf_addLog:
  "countdown_free s \<Longrightarrow> m \<noteq> ''User inactive - possible emergency'' \<Longrightarrow> m \<noteq> ''EMERGENCY: INACTIVITY''
   \<Longrightarrow> countdown_free (addLog m s)"
  by (simp add: countdown_free_def addLog_def list_all_append_entry)

lemma cf_triggerEmergency:
  "countdown_free s \<Longrightarrow> r \<noteq> INACTIVITY \<Longrightarrow> countdown_free (triggerEmergency sc r s)"
  by (cases r) (simp_all add: countdown_free_def triggerEmergency_def setTimeout_def addLog_def list_all_append_entry)

lemma cf_updateNetworkStatus:
  "countdown_free s \<Longrightarrow> countdown_free (updateNetworkStatus sc s)"
  by (simp add: updateNetworkStatus_plain countdown_free_def split: option.splits)

lemma cf_throttledUpdate: "countdown_free s \<Longrightarrow> countdown_free (throttledUpdate s)"
  by (auto simp: throttledUpdate_def throttled_def run_throttled_def defer_throttled_def
        updateNetworkStatus_plain countdown_free_def setTimeout_def clearTimeout_def Let_def list_all_iff
        split: option.splits prod.splits if_splits)

lemma cf_handle:
  assumes "countdown_free s" and "e \<noteq> UserInput"
  shows "countdown_free (handle e s)"
proof (cases e)
  case Click
  then show ?thesis using assms by (simp add: simulateAccident_def cf_triggerEmergency)
next
  case UserInput
  with assms show ?thesis by simp
next
  case (ConnectionChange c)
  have "countdown_free (s\<lparr>connection := Some c\<rparr>)" using assms by (simp add: countdown_free_def)
  then show ?thesis using ConnectionChange assms by (simp add: cf_throttledUpdate split: option.splits)
next
  case (Position la lo)
  then show ?thesis using assms cf_addLog [of s "''Location updated''"]
    by (auto simp: geoSuccess_def countdown_free_def split: option.splits)
next
  case (PositionError m)
  then show ?thesis using assms by (simp add: geoError_def cf_addLog)
next
  case (WorkerMessage ty)
  then show ?thesis using assms by (simp add: cf_addLog)
qed

lemma cf_run_callback:
  assumes "countdown_free s" and "\<not> is_countdown cb"
  shows "countdown_free (run_callback cb s)"
proof (cases cb)
  case InitNetwork
  then show ?thesis using assms by (simp add: cf_updateNetworkStatus)
next
  case ThrottledUpdate
  then show ?thesis using assms
    by (auto simp: throttled_timer_def run_throttled_def updateNetworkStatus_plain countdown_free_def Let_def
          split: option.splits)
next
  case ThrottledActivity
  with assms show ?thesis by simp
next
  case (InactivityTimeout sc)
  with assms show ?thesis by simp
next
  case (EscalationCheck sc)
  then show ?thesis using assms by (simp add: escalation_check_def cf_triggerEmergency)
next
  case Resolve
  have "countdown_free (s\<lparr>emergencyMode := False\<rparr>)" using assms by (simp add: countdown_free_def)
  then show ?thesis using Resolve by (simp add: resolve_def cf_addLog)
qed

lemma cf_fire:
  assumes "countdown_free s" and "t \<in> set (timers s)"
  shows "countdown_free (fire t s)"
proof -
  let ?s = "s\<lparr>timers := filter (\<lambda>u. fst u \<noteq> fst t) (timers s), now := max (now s) (fst (snd t))\<rparr>"
  have "countdown_free ?s" using assms by (simp add: countdown_free_def list_all_iff)
  moreover have "\<not> is_countdown (snd (snd t))" using assms by (simp add: countdown_free_def list_all_iff)
  ultimately show ?thesis unfolding fire_def by (rule cf_run_callback)
qed

lemma cf_run_until: "countdown_free s \<Longrightarrow> countdown_free (run_until T s)"
proof (induction T s rule: run_until.induct)
  case (1 T s)
  show ?case
  proof (cases "next_due T (timers s)")
    case None
    then show ?thesis using "1.prems" by (simp add: run_until_idle countdown_free_def)
  next
    case (Some t)
    then have "t \<in> set (timers s)" by (rule next_due_in)
    with "1.prems" have "countdown_free (fire t s)" by (rule cf_fire)
    with "1.IH" Some show ?thesis by (simp add: run_until_fire)
  qed
qed

lemma cf_play:
  "countdown_free s \<Longrightarrow> list_all (\<lambda>e. snd e \<noteq> UserInput) es \<Longrightarrow> countdown_free (play es s)"
proof (induction es arbitrary: s)
  case Nil
  then show ?case by (simp add: play_def)
next
  case (Cons e es)
  have "countdown_free (event_at (fst e) (snd e) s)"
    unfolding event_at_def using Cons.prems by (intro cf_handle cf_run_until) simp_all
  with Cons show ?case by (simp add: play_def)
qed

lemma cf_mount: "countdown_free (mount t geo conn wrk)"
  by (simp add: mount_def Let_def countdown_free_def addLog_def append_entry_def setTimeout_def fresh_throttle_def
         split: option.splits)


text \<open>
  Claim C10.  The countdown is armed by \<open>handleActivity\<close> alone, and the effect that
  installs the listeners does not call it.  So along every sequence of events without
  a user-input event (presses of the test button, connection changes, position
  readings and errors, worker messages, at any times), and however much time passes:
  the inactive flag is not set, \<open>inactivityTimer.current\<close> holds no timer, neither a
  countdown nor a deferred \<open>handleActivity\<close> is pending, and the log has neither the
  inactivity entry nor an entry "EMERGENCY: INACTIVITY".
\<close>

theorem countdown_needs_input:
  assumes "list_all (\<lambda>e. snd e \<noteq> UserInput) es"
  shows "isInactive (run_until T (play es (mount t geo conn wrk))) = False
         \<and> inactivityTimer (run_until T (play es (mount t geo conn wrk))) = None
         \<and> list_all (\<lambda>x. \<not> is_countdown (snd (snd x)))
              (timers (run_until T (play es (mount t geo conn wrk))))
         \<and> list_all (\<lambda>e. snd e \<noteq> ''User inactive - possible emergency''
                         \<and> snd e \<noteq> ''EMERGENCY: INACTIVITY'')
              (logs (run_until T (play es (mount t geo conn wrk))))"
proof -
  have "countdown_free (play es (mount t geo conn wrk))"
    using cf_mount assms by (rule cf_play)
  then have "countdown_free (run_until T (play es (mount t geo conn wrk)))"
    by (rule cf_run_until)
  then show ?thesis by (simp add: countdown_free_def)
qed

theorem countdown_needs_input_witness:
  "list_all (\<lambda>e. snd e \<noteq> UserInput) [(5000, Click), (9000, Position 1 2)]
   \<and> isInactive (run_until 1000000 (play [(5000, Click), (9000, Position 1 2)]
                                       (mount 1000 True None True))) = False
   \<and> inactivityTimer (run_until 1000000 (play [(5000, Click), (9000, Position 1 2)]
                                            (mount 1000 True None True))) = None"
proof -
  have h: "list_all (\<lambda>e. snd e \<noteq> UserInput) [(5000, Click), (9000, Position 1 2)]" by simp
  from countdown_needs_input [OF h, of 1000000 1000 True None True] h show ?thesis by blast
qed

subsection \<open>The first session: a stale guard\<close>

text \<open>The button calls the \<open>triggerEmergency\<close> of the latest render, whose guard sees
  the current flag.\<close>

lemma click_while_active: "emergencyMode s \<Longrightarrow> handle Click s = s"
  by (simp add: simulateAccident_def triggerEmergency_def latest_render_def)

text \<open>The countdown calls the \<open>triggerEmergency\<close> of the first render, whose guard
  sees \<open>false\<close> whatever the current flag is.\<close>

lemma countdown_ignores_guard:
  "inactivity_timeout first_render s =
     snd (setTimeout Resolve 10000
            (addLog ''EMERGENCY: INACTIVITY''
               (addLog ''User inactive - possible emergency''
                  (s\<lparr>isInactive := True\<rparr>)\<lparr>emergencyMode := True\<rparr>)))"
  by (simp add: inactivity_timeout_def triggerEmergency_def first_render_def)

text \<open>Where nothing else is pending, a trigger that passes the guard makes the state
  active for exactly ten seconds and logs one resolution.\<close>

lemma resolution_after_ten_seconds:
  assumes "timers s = []" and "seen_emergencyMode sc = False"
  shows "(T < now s + 10000 \<longrightarrow> emergencyMode (run_until T (triggerEmergency sc r s)) = True)
         \<and> (now s + 10000 \<le> T \<longrightarrow>
              emergencyMode (run_until T (triggerEmergency sc r s)) = False
              \<and> logs (run_until T (triggerEmergency sc r s))
                  = append_entry (now s + 10000, ''Emergency resolved'')
                      (append_entry (now s, ''EMERGENCY: '' @ reason_name r) (logs s)))"
proof -
  let ?s = "triggerEmergency sc r s"
  have t: "timers ?s = [(nextId s, now s + 10000, Resolve)]" and e: "emergencyMode ?s = True"
    and n: "now ?s = now s"
    and l: "logs ?s = append_entry (now s, ''EMERGENCY: '' @ reason_name r) (logs s)"
    using assms by (simp_all add: triggerEmergency_def setTimeout_def addLog_def)
  show ?thesis
  proof (intro conjI impI)
    assume "T < now s + 10000"
    then have "next_due T (timers ?s) = None" by (simp add: t next_due_def)
    then show "emergencyMode (run_until T ?s) = True" by (simp add: run_until_idle e)
  next
    assume d: "now s + 10000 \<le> T"
    then have f: "next_due T (timers ?s) = Some (nextId s, now s + 10000, Resolve)"
      by (simp add: t next_due_def)
    let ?f = "fire (nextId s, now s + 10000, Resolve) ?s"
    have ft: "timers ?f = []" and fe: "emergencyMode ?f = False"
      and fl: "logs ?f = append_entry (now s + 10000, ''Emergency resolved'') (logs ?s)"
      by (simp_all add: fire_def resolve_def addLog_def t n max_def)
    have "next_due T (timers ?f) = None" by (simp add: ft next_due_def)
    then have r: "run_until T ?s = ?f\<lparr>now := max (now ?f) T\<rparr>"
      by (simp add: run_until_fire [OF f] run_until_idle)
    show "emergencyMode (run_until T ?s) = False" by (simp add: r fe)
    show "logs (run_until T ?s) = append_entry (now s + 10000, ''Emergency resolved'')
                      (append_entry (now s, ''EMERGENCY: '' @ reason_name r) (logs s))"
      by (simp add: r fl l)
  qed
qed


lemma session_start_eq:
  "session_start =
     \<lparr>now = 1000, nextId = 1, timers = [], location = None,
      networkStatus = ''API not supported'', isInactive = False, emergencyMode = False,
      logs = [], inactivityTimer = None, emergencyTimer = None,
      activityThrottle = \<lparr>lastFunc = None, lastRan = None\<rparr>,
      networkThrottle = \<lparr>lastFunc = None, lastRan = None\<rparr>,
      connection = None, geolocation = True, worker = True\<rparr>"
  by (simp add: session_start_def mount_def fresh_throttle_def)

lemma after_input_eq:
  "after_input =
     \<lparr>now = 1000, nextId = 2, timers = [(1, 46000, InactivityTimeout first_render)],
      location = None, networkStatus = ''API not supported'', isInactive = False,
      emergencyMode = False, logs = [], inactivityTimer = Some 1, emergencyTimer = None,
      activityThrottle = \<lparr>lastFunc = None, lastRan = Some 1000\<rparr>,
      networkThrottle = \<lparr>lastFunc = None, lastRan = None\<rparr>,
      connection = None, geolocation = True, worker = True\<rparr>"
  unfolding after_input_def session_start_eq event_at_def
  by (simp add: run_until_idle next_due_def throttledHandler_def throttled_def
                run_throttled_def handleActivity_def setTimeout_def clearTimeout_def)

lemma after_click_eq:
  "after_click =
     \<lparr>now = 41000, nextId = 3,
      timers = [(1, 46000, InactivityTimeout first_render), (2, 51000, Resolve)],
      location = None, networkStatus = ''API not supported'', isInactive = False,
      emergencyMode = True, logs = [(41000, ''EMERGENCY: MANUAL_TEST'')],
      inactivityTimer = Some 1, emergencyTimer = None,
      activityThrottle = \<lparr>lastFunc = None, lastRan = Some 1000\<rparr>,
      networkThrottle = \<lparr>lastFunc = None, lastRan = None\<rparr>,
      connection = None, geolocation = True, worker = True\<rparr>"
  unfolding after_click_def after_input_eq event_at_def
  by (simp add: run_until_idle next_due_def simulateAccident_def latest_render_def
                triggerEmergency_def setTimeout_def addLog_def append_entry_def)

lemma after_countdown_eq:
  "after_countdown =
     \<lparr>now = 46000, nextId = 4, timers = [(2, 51000, Resolve), (3, 56000, Resolve)],
      location = None, networkStatus = ''API not supported'', isInactive = True,
      emergencyMode = True,
      logs = [(41000, ''EMERGENCY: MANUAL_TEST''),
              (46000, ''User inactive - possible emergency''),
              (46000, ''EMERGENCY: INACTIVITY'')],
      inactivityTimer = Some 1, emergencyTimer = None,
      activityThrottle = \<lparr>lastFunc = None, lastRan = Some 1000\<rparr>,
      networkThrottle = \<lparr>lastFunc = None, lastRan = None\<rparr>,
      connection = None, geolocation = True, worker = True\<rparr>"
  unfolding after_countdown_def after_click_eq
  by (simp add: run_until_idle run_until_fire next_due_def fire_def inactivity_timeout_def
                first_render_def triggerEmergency_def setTimeout_def addLog_def append_entry_def)

lemma after_second_click_eq:
  "after_second_click =
     \<lparr>now = 52000, nextId = 5, timers = [(3, 56000, Resolve), (4, 62000, Resolve)],
      location = None, networkStatus = ''API not supported'', isInactive = True,
      emergencyMode = True,
      logs = [(41000, ''EMERGENCY: MANUAL_TEST''),
              (46000, ''User inactive - possible emergency''),
              (46000, ''EMERGENCY: INACTIVITY''),
              (51000, ''Emergency resolved''),
              (52000, ''EMERGENCY: MANUAL_TEST'')],
      inactivityTimer = Some 1, emergencyTimer = None,
      activityThrottle = \<lparr>lastFunc = None, lastRan = Some 1000\<rparr>,
      networkThrottle = \<lparr>lastFunc = None, lastRan = None\<rparr>,
      connection = None, geolocation = True, worker = True\<rparr>"
  unfolding after_second_click_def after_countdown_eq event_at_def
  by (simp add: run_until_idle run_until_fire next_due_def fire_def resolve_def
                simulateAccident_def latest_render_def
                triggerEmergency_def setTimeout_def addLog_def append_entry_def)

lemma before_second_click:
  "emergencyMode (run_until 52000 after_countdown) = False
   \<and> timers (run_until 52000 after_countdown) = [(3, 56000, Resolve)]"
  unfolding after_countdown_eq
  by (simp add: run_until_idle run_until_fire next_due_def fire_def resolve_def addLog_def)

lemma after_stale_resolve:
  "emergencyMode (run_until 56000 after_second_click) = False
  \<and> map snd (logs (run_until 56000 after_second_click)) =
     [''EMERGENCY: MANUAL_TEST'', ''User inactive - possible emergency'',
      ''EMERGENCY: INACTIVITY'', ''Emergency resolved'', ''EMERGENCY: MANUAL_TEST'', ''Emergency resolved'']"
  unfolding after_second_click_eq
  by (simp add: run_until_idle run_until_fire next_due_def fire_def resolve_def addLog_def append_entry_def)


text \<open>
  Claim C1 (the code departs from it).  In the first session the test button is
  pressed at 41000, so the emergency is active with its resolution due at 51000.
  The countdown armed by the pointer move at 1000 fires at 46000, while the emergency
  is active: its trigger is not ignored.  It appends the entry
  "EMERGENCY: INACTIVITY" to the log and arms a second resolution, due at 56000.
\<close>

theorem trigger_while_active_not_ignored:
  "emergencyMode after_click = True
   \<and> timers after_click = [(1, 46000, InactivityTimeout first_render), (2, 51000, Resolve)]
   \<and> emergencyMode after_countdown = True
   \<and> logs after_countdown =
       logs after_click @ [(46000, ''User inactive - possible emergency''),
                           (46000, ''EMERGENCY: INACTIVITY'')]
   \<and> timers after_countdown = [(2, 51000, Resolve), (3, 56000, Resolve)]"
  by (simp add: after_click_eq after_countdown_eq)

text \<open>
  Claim C3 (the code departs from it).  Later in the first session the first
  resolution has fired at 51000 and the emergency state is idle at 52000, when the
  test button is pressed again.  The state is active from then on, but the
  resolution left over from the trigger at 46000 fires at 56000 and makes it idle
  after 4 seconds instead of 10; "Emergency resolved" is logged then, and again at
  62000 by the resolution that belongs to the trigger at 52000.
\<close>

theorem leftover_resolution_ends_emergency_early:
  "emergencyMode (run_until 52000 after_countdown) = False
   \<and> emergencyMode after_second_click = True
   \<and> now after_second_click = 52000
   \<and> emergencyMode (run_until 56000 after_second_click) = False
   \<and> filter (\<lambda>e. snd e = ''Emergency resolved'') (logs (run_until 62000 after_second_click))
       = [(51000, ''Emergency resolved''), (56000, ''Emergency resolved''),
          (62000, ''Emergency resolved'')]"
proof -
  have a: "emergencyMode (run_until 52000 after_countdown) = False"
    using before_second_click by blast
  have b: "emergencyMode after_second_click = True" and c: "now after_second_click = 52000"
    by (simp_all add: after_second_click_eq)
  have d: "emergencyMode (run_until 56000 after_second_click) = False"
    using after_stale_resolve by blast
  have e: "filter (\<lambda>e. snd e = ''Emergency resolved'') (logs (run_until 62000 after_second_click))
            = [(51000, ''Emergency resolved''), (56000, ''Emergency resolved''),
               (62000, ''Emergency resolved'')]"
    unfolding after_second_click_eq
    by (simp add: run_until_idle run_until_fire next_due_def fire_def resolve_def addLog_def
                  append_entry_def)
  from a b c d e show ?thesis by blast
qed

subsection \<open>The escalation timer\<close>

text \<open>The check that an escalation timer of the first render runs compares the
  status seen by that render, "checking...".\<close>

lemma escalation_check_first_render: "escalation_check first_render s = s"
  by (simp add: escalation_check_def first_render_def)

text \<open>\<open>handleNetworkEmergency\<close> itself does replace the pending escalation timer: after
  a call exactly one is pending, due 30 seconds later.\<close>

lemma escalation_timer_replaced:
  assumes "hygienic s"
  shows "filter (\<lambda>t. is_escalation (snd (snd t))) (timers (handleNetworkEmergency sc s))
           = [(nextId s, now s + 30000, EscalationCheck sc)]"
proof -
  have "\<And>u. u \<in> set (timers s) \<Longrightarrow> is_escalation (snd (snd u)) \<Longrightarrow> emergencyTimer s = Some (fst u)"
    using assms by (simp add: hygienic_def list_all_iff)
  then have "filter (\<lambda>t. is_escalation (snd (snd t)))
               (filter (\<lambda>t. Some (fst t) \<noteq> emergencyTimer s) (timers s)) = []"
    by (auto simp: filter_empty_conv)
  then show ?thesis
    by (simp add: handleNetworkEmergency_def setTimeout_def clearTimeout_def addLog_def Let_def)
qed

text \<open>The second session: the readings are stored as "poor" and nothing is pending
  afterwards.\<close>

lemma network_session_eq:
  "network_session =
     \<lparr>now = 45000, nextId = 2, timers = [], location = None, networkStatus = ''poor'',
      isInactive = False, emergencyMode = False, logs = [], inactivityTimer = None,
      emergencyTimer = None, activityThrottle = \<lparr>lastFunc = None, lastRan = None\<rparr>,
      networkThrottle = \<lparr>lastFunc = None, lastRan = Some 10000\<rparr>,
      connection = Some weak_link, geolocation = True, worker = True\<rparr>"
proof -
  have c: "classify weak_link = ''poor''" by (simp add: weak_link_def classify_def)
  have "event_at 10000 (ConnectionChange weak_link) (mount 1000 True (Some weak_link) True) =
     \<lparr>now = 10000, nextId = 2, timers = [], location = None, networkStatus = ''poor'',
      isInactive = False, emergencyMode = False, logs = [], inactivityTimer = None,
      emergencyTimer = None, activityThrottle = \<lparr>lastFunc = None, lastRan = None\<rparr>,
      networkThrottle = \<lparr>lastFunc = None, lastRan = Some 10000\<rparr>,
      connection = Some weak_link, geolocation = True, worker = True\<rparr>"
    by (simp add: event_at_def mount_def fresh_throttle_def setTimeout_def run_until_idle
          run_until_fire next_due_def fire_def updateNetworkStatus_plain c throttledUpdate_def
          throttled_def run_throttled_def)
  then show ?thesis by (simp add: network_session_def run_until_idle next_due_def)
qed

subsection \<open>Inactivity after the last user input\<close>






lemma fired_until_idle: "next_due T (timers s) = None \<Longrightarrow> fired_until T s = []"
  by (simp add: fired_until.simps)
















lemma input_arms:
  assumes h: "hygienic s"
  shows "armed (now s + 46000) (handle UserInput s)"
proof (cases "last_ran (activityThrottle s) = 0")
  case True
  then have e: "throttledHandler s = (handleActivity first_render s)\<lparr>activityThrottle := (activityThrottle s)\<lparr>lastRan := Some (now s)\<rparr>\<rparr>"
    by (auto simp: throttledHandler_def throttled_def run_throttled_def last_ran_def Let_def
          split: option.splits)
  have "list_all (\<lambda>t. snd (snd t) \<noteq> ThrottledActivity) (timers s)"
    using h True by (auto simp: hygienic_def list_all_iff)
  then show ?thesis
    by (auto simp: e armed_def countdowns_def timers_handleActivity list_all_iff list_ex_iff)
next
  case False
  then obtain r where r: "lastRan (activityThrottle s) = Some r" "0 < r"
    by (auto simp: last_ran_def split: option.splits)
  with h have rn: "r \<le> now s" by (simp add: hygienic_def last_ran_def)
  have "now s + nat (int 1000 - (int (now s) - int r)) + 45000 \<le> now s + 46000"
    using rn by simp
  then show ?thesis using r
    by (auto simp: throttledHandler_def throttled_def defer_throttled_def Let_def
          armed_def countdowns_def list_ex_iff setTimeout_def clearTimeout_def)
qed







lemma handleActivity_resets:
  assumes "hygienic s"
  shows "isInactive (handleActivity first_render s) = False
         \<and> filter (\<lambda>t. is_inactivity (snd (snd t))) (timers (handleActivity first_render s))
             = [(nextId s, now s + 45000, InactivityTimeout first_render)]"
proof -
  have "\<And>u. u \<in> set (timers s) \<Longrightarrow> is_inactivity (snd (snd u)) \<Longrightarrow> inactivityTimer s = Some (fst u)"
    using assms by (simp add: hygienic_def list_all_iff)
  then have "filter (\<lambda>t. is_inactivity (snd (snd t)))
               (filter (\<lambda>t. Some (fst t) \<noteq> inactivityTimer s) (timers s)) = []"
    by (auto simp: filter_empty_conv)
  then show ?thesis
    by (simp add: timers_handleActivity) (simp add: handleActivity_def setTimeout_def clearTimeout_def)
qed






















subsection \<open>The throttle helper under observation\<close>

lemma probe_until_idle:
  "next_due T (timers s) = None \<Longrightarrow> probe_until limit T s = s\<lparr>now := max (now s) T\<rparr>"
  by (simp add: probe_until.simps)

lemma probe_until_fire:
  "next_due T (timers s) = Some t \<Longrightarrow> probe_until limit T s = probe_until limit T (probe_fire limit t s)"
  by (simp add: probe_until.simps)

lemma wrapped_first:
  "lastRan (vars s) = None \<Longrightarrow>
   wrapped limit a s = s\<lparr>calls := calls s @ [(now s, a)], vars := (vars s)\<lparr>lastRan := Some (now s)\<rparr>\<rparr>"
  by (simp add: wrapped_def throttled_def run_throttled_def record_call_def)

lemma wrapped_later:
  "lastRan (vars s) = Some r \<Longrightarrow> 0 < r \<Longrightarrow>
   wrapped limit a s =
     s\<lparr>timers := filter (\<lambda>t. Some (fst t) \<noteq> lastFunc (vars s)) (timers s)
                    @ [(nextId s, now s + nat (int limit - (int (now s) - int r)), a)],
       nextId := Suc (nextId s),
       vars := (vars s)\<lparr>lastFunc := Some (nextId s)\<rparr>\<rparr>"
  by (simp add: wrapped_def throttled_def defer_throttled_def setTimeout_def clearTimeout_def)

lemma deferred_due:
  "r \<le> t \<Longrightarrow> t + nat (int limit - (int t - int r)) = max t (r + limit)"
  by (simp add: max_def nat_diff_distrib) 

lemma call_in_window:
  assumes "lastRan (vars s) = Some r" and "0 < r"
    and "timers s = [] \<or> trailing r limit b s"
    and "now s \<le> t" and "r \<le> t" and "t < r + limit"
  shows "trailing r limit a (call_at limit (t, a) s)
         \<and> calls (call_at limit (t, a) s) = calls s
         \<and> now (call_at limit (t, a) s) = t"
proof -
  have idle: "next_due t (timers s) = None"
    using assms(3,6) by (auto simp: next_due_def trailing_def split: option.splits)
  let ?s = "s\<lparr>now := t\<rparr>"
  have p: "probe_until limit t s = ?s"
    using assms(4) by (simp add: probe_until_idle [OF idle] max_def)
  have "filter (\<lambda>u. Some (fst u) \<noteq> lastFunc (vars s)) (timers s) = []"
    using assms(3) by (auto simp: trailing_def split: option.splits)
  moreover have "t + nat (int limit - (int t - int r)) = r + limit"
    using assms(5,6) by (simp add: deferred_due)
  ultimately show ?thesis
    using assms(1,2) by (simp add: call_at_def p wrapped_later [of ?s r] trailing_def)
qed

lemma calls_in_window:
  assumes "lastRan (vars s) = Some r" and "0 < r"
    and "sorted (map fst cs)" and "list_all (\<lambda>c. r \<le> fst c \<and> fst c < r + limit) cs"
    and "timers s = [] \<or> trailing r limit b s"
    and "list_all (\<lambda>c. now s \<le> fst c) cs"
  shows "calls (foldl (\<lambda>x c. call_at limit c x) s cs) = calls s
         \<and> (if cs = [] then timers (foldl (\<lambda>x c. call_at limit c x) s cs) = timers s
                           \<and> now (foldl (\<lambda>x c. call_at limit c x) s cs) = now s
            else trailing r limit (snd (last cs)) (foldl (\<lambda>x c. call_at limit c x) s cs)
                 \<and> now (foldl (\<lambda>x c. call_at limit c x) s cs) = fst (last cs))"
  using assms
proof (induction cs arbitrary: s b)
  case Nil
  then show ?case by simp
next
  case (Cons c cs)
  let ?s = "call_at limit c s"
  from Cons.prems have w: "now s \<le> fst c" "r \<le> fst c" "fst c < r + limit" by simp_all
  from call_in_window [OF Cons.prems(1,2,5) w, of "snd c"]
  have t: "trailing r limit (snd c) ?s" and k: "calls ?s = calls s" and n: "now ?s = fst c"
    by simp_all
  from t have l: "lastRan (vars ?s) = Some r" by (simp add: trailing_def)
  have later: "list_all (\<lambda>d. now ?s \<le> fst d) cs"
    using Cons.prems(3) n by (auto simp: list_all_iff)
  have "sorted (map fst cs)" and "list_all (\<lambda>c. r \<le> fst c \<and> fst c < r + limit) cs"
    using Cons.prems(3,4) by simp_all
  from Cons.IH [OF l Cons.prems(2) this _ later, of "snd c"] t
  have "calls (foldl (\<lambda>x c. call_at limit c x) ?s cs) = calls ?s
         \<and> (if cs = [] then timers (foldl (\<lambda>x c. call_at limit c x) ?s cs) = timers ?s
                           \<and> now (foldl (\<lambda>x c. call_at limit c x) ?s cs) = now ?s
            else trailing r limit (snd (last cs)) (foldl (\<lambda>x c. call_at limit c x) ?s cs)
                 \<and> now (foldl (\<lambda>x c. call_at limit c x) ?s cs) = fst (last cs))"
    by blast
  with t k n show ?case by (cases "cs = []") simp_all
qed

lemma trailing_fires:
  assumes "trailing r limit a s" and "now s \<le> r + limit" and "r + limit \<le> T"
  shows "calls (probe_until limit T s) = calls s @ [(r + limit, a)]
         \<and> lastRan (vars (probe_until limit T s)) = Some (r + limit)
         \<and> timers (probe_until limit T s) = []"
proof -
  from assms(1) obtain i where i: "lastFunc (vars s) = Some i" "timers s = [(i, r + limit, a)]"
    and l: "lastRan (vars s) = Some r"
    by (auto simp: trailing_def split: option.splits)
  have d: "next_due T (timers s) = Some (i, r + limit, a)"
    using i assms(3) by (simp add: next_due_def)
  let ?s = "probe_fire limit (i, r + limit, a) s"
  have f: "?s = s\<lparr>timers := [], now := r + limit, calls := calls s @ [(r + limit, a)],
                   vars := (vars s)\<lparr>lastRan := Some (r + limit)\<rparr>\<rparr>"
    using i l assms(2)
    by (simp add: probe_fire_def wrapped_timer_def throttled_timer_def run_throttled_def
                  record_call_def max_def)
  have "next_due T (timers ?s) = None" by (simp add: f next_due_def)
  then have "probe_until limit T ?s = ?s\<lparr>now := max (now ?s) T\<rparr>" by (rule probe_until_idle)
  then show ?thesis by (simp add: probe_until_fire [OF d] f)
qed


lemma timer_body:
  "lastRan (vars s) = Some r \<Longrightarrow>
   wrapped_timer limit a s =
     (if r + limit \<le> now s
      then s\<lparr>calls := calls s @ [(now s, a)], vars := (vars s)\<lparr>lastRan := Some (now s)\<rparr>\<rparr>
      else s)"
  by (simp add: wrapped_timer_def throttled_timer_def run_throttled_def record_call_def)

lemma window_after_run:
  assumes "lastRan (vars s) = Some r" and "0 < r" and "r \<le> now s" and "timers s = []"
    and "sorted (map fst cs)" and "list_all (\<lambda>c. now s \<le> fst c \<and> fst c < r + limit) cs"
    and "r + limit \<le> T"
  shows "calls (foldl (\<lambda>x c. call_at limit c x) s cs) = calls s
         \<and> calls (probe_until limit T (foldl (\<lambda>x c. call_at limit c x) s cs))
             = calls s @ (if cs = [] then [] else [(r + limit, snd (last cs))])
         \<and> lastRan (vars (probe_until limit T (foldl (\<lambda>x c. call_at limit c x) s cs)))
             = Some (if cs = [] then r else r + limit)
         \<and> timers (probe_until limit T (foldl (\<lambda>x c. call_at limit c x) s cs)) = []"
proof -
  let ?s = "foldl (\<lambda>x c. call_at limit c x) s cs"
  have w: "list_all (\<lambda>c. r \<le> fst c \<and> fst c < r + limit) cs"
    and n: "list_all (\<lambda>c. now s \<le> fst c) cs"
    using assms(3,6) by (auto simp: list_all_iff)
  from calls_in_window [OF assms(1,2,5) w _ n, of undefined] assms(4)
  have k: "calls ?s = calls s"
    and e: "cs = [] \<Longrightarrow> timers ?s = []"
    and t: "cs \<noteq> [] \<Longrightarrow> trailing r limit (snd (last cs)) ?s \<and> now ?s = fst (last cs)"
    by (simp_all split: if_splits)
  show ?thesis
  proof (cases "cs = []")
    case True
    then have "next_due T (timers ?s) = None" using e by (simp add: next_due_def)
    then show ?thesis using True k assms(1,4) by (simp add: probe_until_idle)
  next
    case False
    then have "last cs \<in> set cs" by simp
    with assms(6) have "fst (last cs) < r + limit" by (auto simp: list_all_iff)
    with t [OF False] have "trailing r limit (snd (last cs)) ?s" and "now ?s \<le> r + limit"
      by simp_all
    from trailing_fires [OF this assms(7)] k False show ?thesis by simp
  qed
qed

lemma window_from_start:
  assumes "0 < t" and "sorted (map fst cs)"
    and "list_all (\<lambda>c. t \<le> fst c \<and> fst c < t + limit) cs" and "t + limit \<le> T"
  shows "calls (probe_until limit T (foldl (\<lambda>x c. call_at limit c x) (probe_start t) ((t, a) # cs)))
           = (t, a) # (if cs = [] then [] else [(t + limit, snd (last cs))])"
proof -
  let ?s = "call_at limit (t, a) (probe_start t)"
  have s: "?s = (probe_start t)\<lparr>calls := [(t, a)], vars := \<lparr>lastFunc = None, lastRan = Some t\<rparr>\<rparr>"
    by (simp add: call_at_def probe_until_idle next_due_def probe_start_def wrapped_first
                  fresh_throttle_def)
  have "lastRan (vars ?s) = Some t" "now ?s = t" "timers ?s = []" "calls ?s = [(t, a)]"
    unfolding s by (simp_all add: probe_start_def)
  with window_after_run [of ?s t cs limit T] assms show ?thesis by simp
qed

text \<open>Calls in a quiet period, made before the timer of the first of them fires.\<close>

lemma quiet_call:
  assumes "lastRan (vars s) = Some r" and "0 < r" and "r + limit \<le> now s"
    and "timers s = [] \<or> deferred_at (now s) b s"
  shows "deferred_at (now s) a (wrapped limit a s)
         \<and> calls (wrapped limit a s) = calls s
         \<and> now (wrapped limit a s) = now s
         \<and> lastRan (vars (wrapped limit a s)) = Some r"
proof -
  have "filter (\<lambda>u. Some (fst u) \<noteq> lastFunc (vars s)) (timers s) = []"
    using assms(4) by (auto simp: deferred_at_def split: option.splits)
  moreover have "now s + nat (int limit - (int (now s) - int r)) = now s"
    using assms(3) by (simp add: deferred_due max_def)
  ultimately show ?thesis
    using assms(1,2) by (simp add: wrapped_later [of s r] deferred_at_def)
qed

lemma quiet_calls:
  assumes "lastRan (vars s) = Some r" and "0 < r" and "r + limit \<le> now s"
    and "timers s = [] \<or> deferred_at (now s) b s"
  shows "deferred_at (now s) a (foldl (\<lambda>x b. wrapped limit b x) s (bs @ [a]))
         \<and> calls (foldl (\<lambda>x b. wrapped limit b x) s (bs @ [a])) = calls s
         \<and> now (foldl (\<lambda>x b. wrapped limit b x) s (bs @ [a])) = now s
         \<and> lastRan (vars (foldl (\<lambda>x b. wrapped limit b x) s (bs @ [a]))) = Some r"
  using assms
proof (induction bs arbitrary: s b)
  case Nil
  from quiet_call [OF Nil] show ?case by simp
next
  case (Cons c bs)
  let ?s = "wrapped limit c s"
  from quiet_call [OF Cons.prems, of c]
  have d: "deferred_at (now s) c ?s" and k: "calls ?s = calls s" and n: "now ?s = now s"
    and l: "lastRan (vars ?s) = Some r"
    by simp_all
  from d n have "timers ?s = [] \<or> deferred_at (now ?s) c ?s" by simp
  from Cons.IH [OF l Cons.prems(2) _ this] Cons.prems(3) n k show ?case by simp
qed

lemma deferred_fires:
  assumes "deferred_at d a s" and "lastRan (vars s) = Some r" and "r + limit \<le> d"
    and "now s \<le> d" and "d \<le> T"
  shows "calls (probe_until limit T s) = calls s @ [(d, a)]
         \<and> lastRan (vars (probe_until limit T s)) = Some d
         \<and> timers (probe_until limit T s) = []"
proof -
  from assms(1) obtain i where i: "lastFunc (vars s) = Some i" "timers s = [(i, d, a)]"
    by (auto simp: deferred_at_def split: option.splits)
  have n: "next_due T (timers s) = Some (i, d, a)"
    using i assms(5) by (simp add: next_due_def)
  let ?s = "probe_fire limit (i, d, a) s"
  have f: "?s = s\<lparr>timers := [], now := d, calls := calls s @ [(d, a)],
                   vars := (vars s)\<lparr>lastRan := Some d\<rparr>\<rparr>"
    using i assms(2,3,4) by (simp add: probe_fire_def timer_body max_def)
  have "next_due T (timers ?s) = None" by (simp add: f next_due_def)
  then have "probe_until limit T ?s = ?s\<lparr>now := max (now ?s) T\<rparr>" by (rule probe_until_idle)
  then show ?thesis by (simp add: probe_until_fire [OF n] f)
qed

lemma quiet_period:
  assumes "lastRan (vars s) = Some r" and "0 < r" and "r + limit \<le> now s"
    and "timers s = []" and "now s \<le> T"
  shows "calls (foldl (\<lambda>x b. wrapped limit b x) s (bs @ [a])) = calls s
         \<and> calls (probe_until limit T (foldl (\<lambda>x b. wrapped limit b x) s (bs @ [a])))
             = calls s @ [(now s, a)]
         \<and> lastRan (vars (probe_until limit T (foldl (\<lambda>x b. wrapped limit b x) s (bs @ [a]))))
             = Some (now s)
         \<and> timers (probe_until limit T (foldl (\<lambda>x b. wrapped limit b x) s (bs @ [a]))) = []"
proof -
  let ?s = "foldl (\<lambda>x b. wrapped limit b x) s (bs @ [a])"
  from assms(4) have "timers s = [] \<or> deferred_at (now s) undefined s" by simp
  from quiet_calls [OF assms(1,2,3) this, of a bs]
  have d: "deferred_at (now s) a ?s" and k: "calls ?s = calls s" and n: "now ?s = now s"
    and l: "lastRan (vars ?s) = Some r"
    by simp_all
  from n have "now ?s \<le> now s" by simp
  from deferred_fires [OF d l assms(3) this assms(5)] k show ?thesis by simp
qed

text \<open>
  Claim C6, as amended.  (1) A call of the wrapper that has never run the callback
  runs it at once, with the arguments of the call, and that moment becomes the last
  run.  (2) Every later call, also the first one of a later quiet period, runs nothing
  itself: it replaces the pending timer by one that holds its arguments and is due one
  interval after the last run, or at once if that moment has passed.  (3) When such a
  timer fires one interval or more after the last run, it runs the callback with the
  arguments it holds, and that moment becomes the last run; fired earlier it does
  nothing.  (4) Hence the calls made at one moment of a quiet period, one interval or
  more after the last run, run nothing themselves; the callback runs once from the
  timer, at that moment, with the arguments of the last of them.  (5) For every
  sequence of calls that all fall less than one interval after the last run, nothing
  runs during the sequence, and afterwards exactly one trailing run takes place if the
  sequence is not empty (none otherwise), one interval after that run, with the
  arguments of the last call; the trailing run is then the last run.  (6) In
  particular, for a fresh wrapper called at \<open>t0\<close> and then any number of times before
  \<open>t0 + limit\<close>: one immediate run at \<open>t0\<close>, and at most one trailing run, at
  \<open>t0 + limit\<close>, with the arguments of the last call.
\<close>

theorem throttle_contract:
  "(lastRan (vars s) = None \<longrightarrow>
      calls (wrapped limit a s) = calls s @ [(now s, a)]
      \<and> timers (wrapped limit a s) = timers s
      \<and> lastRan (vars (wrapped limit a s)) = Some (now s))
   \<and> (lastRan (vars s) = Some r \<and> 0 < r \<and> r \<le> now s \<longrightarrow>
      calls (wrapped limit a s) = calls s
      \<and> timers (wrapped limit a s) =
          filter (\<lambda>t. Some (fst t) \<noteq> lastFunc (vars s)) (timers s)
            @ [(nextId s, max (now s) (r + limit), a)]
      \<and> lastFunc (vars (wrapped limit a s)) = Some (nextId s)
      \<and> lastRan (vars (wrapped limit a s)) = Some r)
   \<and> (lastRan (vars s) = Some r \<longrightarrow>
      calls (wrapped_timer limit a s) = calls s @ (if r + limit \<le> now s then [(now s, a)] else [])
      \<and> lastRan (vars (wrapped_timer limit a s)) = Some (if r + limit \<le> now s then now s else r))
   \<and> (lastRan (vars s) = Some r \<and> 0 < r \<and> r + limit \<le> now s \<and> timers s = [] \<and> now s \<le> T \<longrightarrow>
      calls (foldl (\<lambda>x b. wrapped limit b x) s (bs @ [a])) = calls s
      \<and> calls (probe_until limit T (foldl (\<lambda>x b. wrapped limit b x) s (bs @ [a])))
          = calls s @ [(now s, a)]
      \<and> lastRan (vars (probe_until limit T (foldl (\<lambda>x b. wrapped limit b x) s (bs @ [a]))))
          = Some (now s)
      \<and> timers (probe_until limit T (foldl (\<lambda>x b. wrapped limit b x) s (bs @ [a]))) = [])
   \<and> (lastRan (vars s) = Some r \<and> 0 < r \<and> r \<le> now s \<and> timers s = []
       \<and> sorted (map fst cs) \<and> list_all (\<lambda>c. now s \<le> fst c \<and> fst c < r + limit) cs
       \<and> r + limit \<le> T \<longrightarrow>
      calls (foldl (\<lambda>x c. call_at limit c x) s cs) = calls s
      \<and> calls (probe_until limit T (foldl (\<lambda>x c. call_at limit c x) s cs))
          = calls s @ (if cs = [] then [] else [(r + limit, snd (last cs))])
      \<and> lastRan (vars (probe_until limit T (foldl (\<lambda>x c. call_at limit c x) s cs)))
          = Some (if cs = [] then r else r + limit)
      \<and> timers (probe_until limit T (foldl (\<lambda>x c. call_at limit c x) s cs)) = [])
   \<and> (0 < t0 \<and> sorted (map fst cs) \<and> list_all (\<lambda>c. t0 \<le> fst c \<and> fst c < t0 + limit) cs
       \<and> t0 + limit \<le> T \<longrightarrow>
      calls (probe_until limit T
               (foldl (\<lambda>x c. call_at limit c x) (probe_start t0) ((t0, a) # cs)))
        = (t0, a) # (if cs = [] then [] else [(t0 + limit, snd (last cs))]))"
proof -
  have 1: "lastRan (vars s) = None \<longrightarrow>
      calls (wrapped limit a s) = calls s @ [(now s, a)]
      \<and> timers (wrapped limit a s) = timers s
      \<and> lastRan (vars (wrapped limit a s)) = Some (now s)"
    by (simp add: wrapped_def throttled_def run_throttled_def record_call_def)
  have 2: "lastRan (vars s) = Some r \<and> 0 < r \<and> r \<le> now s \<longrightarrow>
      calls (wrapped limit a s) = calls s
      \<and> timers (wrapped limit a s) =
          filter (\<lambda>t. Some (fst t) \<noteq> lastFunc (vars s)) (timers s)
            @ [(nextId s, max (now s) (r + limit), a)]
      \<and> lastFunc (vars (wrapped limit a s)) = Some (nextId s)
      \<and> lastRan (vars (wrapped limit a s)) = Some r"
    by (simp add: wrapped_def throttled_def defer_throttled_def setTimeout_def clearTimeout_def
          deferred_due)
  have 3: "lastRan (vars s) = Some r \<longrightarrow>
      calls (wrapped_timer limit a s) = calls s @ (if r + limit \<le> now s then [(now s, a)] else [])
      \<and> lastRan (vars (wrapped_timer limit a s)) = Some (if r + limit \<le> now s then now s else r)"
    by (simp add: wrapped_timer_def throttled_timer_def run_throttled_def record_call_def)
  have 4: "lastRan (vars s) = Some r \<and> 0 < r \<and> r + limit \<le> now s \<and> timers s = [] \<and> now s \<le> T \<longrightarrow>
      calls (foldl (\<lambda>x b. wrapped limit b x) s (bs @ [a])) = calls s
      \<and> calls (probe_until limit T (foldl (\<lambda>x b. wrapped limit b x) s (bs @ [a])))
          = calls s @ [(now s, a)]
      \<and> lastRan (vars (probe_until limit T (foldl (\<lambda>x b. wrapped limit b x) s (bs @ [a]))))
          = Some (now s)
      \<and> timers (probe_until limit T (foldl (\<lambda>x b. wrapped limit b x) s (bs @ [a]))) = []"
    using quiet_period [of s r limit T bs a] by blast
  have 5: "lastRan (vars s) = Some r \<and> 0 < r \<and> r \<le> now s \<and> timers s = []
       \<and> sorted (map fst cs) \<and> list_all (\<lambda>c. now s \<le> fst c \<and> fst c < r + limit) cs
       \<and> r + limit \<le> T \<longrightarrow>
      calls (foldl (\<lambda>x c. call_at limit c x) s cs) = calls s
      \<and> calls (probe_until limit T (foldl (\<lambda>x c. call_at limit c x) s cs))
          = calls s @ (if cs = [] then [] else [(r + limit, snd (last cs))])
      \<and> lastRan (vars (probe_until limit T (foldl (\<lambda>x c. call_at limit c x) s cs)))
          = Some (if cs = [] then r else r + limit)
      \<and> timers (probe_until limit T (foldl (\<lambda>x c. call_at limit c x) s cs)) = []"
    using window_after_run [of s r cs limit T] by blast
  have 6: "0 < t0 \<and> sorted (map fst cs) \<and> list_all (\<lambda>c. t0 \<le> fst c \<and> fst c < t0 + limit) cs
       \<and> t0 + limit \<le> T \<longrightarrow>
      calls (probe_until limit T
               (foldl (\<lambda>x c. call_at limit c x) (probe_start t0) ((t0, a) # cs)))
        = (t0, a) # (if cs = [] then [] else [(t0 + limit, snd (last cs))])"
    using window_from_start [of t0 cs limit T a] by blast
  from 1 2 3 4 5 6 show ?thesis by (intro conjI)
qed

lemma quiet_probe_eq:
  "quiet_probe = \<lparr>now = 5000, nextId = 1, timers = [],
                  vars = \<lparr>lastFunc = None, lastRan = Some 7\<rparr>, calls = [(7, ''a'')]\<rparr>"
  by (simp add: quiet_probe_def probe_start_def fresh_throttle_def wrapped_first
                probe_until_idle next_due_def)

text \<open>
  Claim C6, as stated, fails in a later quiet period.  The wrapper below ran at 7 and
  is called with "b" at 5000, the first call after a pause of almost five intervals:
  the call does not run the callback, it arms a timer due at once.  A second call
  with "c" before that timer fires replaces it, and the callback never runs with the
  arguments "b" of the first call of the quiet period.
\<close>

theorem quiet_call_is_deferred:
  "calls quiet_probe = [(7, ''a'')]
   \<and> now quiet_probe = 5000
   \<and> calls (wrapped 1000 ''b'' quiet_probe) = [(7, ''a'')]
   \<and> timers (wrapped 1000 ''b'' quiet_probe) = [(1, 5000, ''b'')]
   \<and> calls (probe_until 1000 9000 (wrapped 1000 ''c'' (wrapped 1000 ''b'' quiet_probe)))
       = [(7, ''a''), (5000, ''c'')]"
proof -
  have b: "wrapped 1000 ''b'' quiet_probe =
        \<lparr>now = 5000, nextId = 2, timers = [(1, 5000, ''b'')],
         vars = \<lparr>lastFunc = Some 1, lastRan = Some 7\<rparr>, calls = [(7, ''a'')]\<rparr>"
    unfolding quiet_probe_eq by (simp add: wrapped_later [of _ 7])
  have c: "wrapped 1000 ''c'' (wrapped 1000 ''b'' quiet_probe) =
        \<lparr>now = 5000, nextId = 3, timers = [(2, 5000, ''c'')],
         vars = \<lparr>lastFunc = Some 2, lastRan = Some 7\<rparr>, calls = [(7, ''a'')]\<rparr>"
    unfolding b by (simp add: wrapped_later [of _ 7])
  have d: "calls (probe_until 1000 9000 (wrapped 1000 ''c'' (wrapped 1000 ''b'' quiet_probe)))
       = [(7, ''a''), (5000, ''c'')]"
    unfolding c
    by (simp add: probe_until_idle probe_until_fire next_due_def probe_fire_def wrapped_timer_def
          throttled_timer_def run_throttled_def record_call_def)
  have e: "calls quiet_probe = [(7, ''a'')]" "now quiet_probe = 5000"
    by (simp_all add: quiet_probe_eq)
  have f: "calls (wrapped 1000 ''b'' quiet_probe) = [(7, ''a'')]"
    "timers (wrapped 1000 ''b'' quiet_probe) = [(1, 5000, ''b'')]"
    unfolding b by simp_all
  from d e f show ?thesis by blast
qed

theorem throttle_contract_witness:
  "lastRan (vars (probe_start 7 :: string probe)) = None
   \<and> calls (wrapped 1000 ''a'' (probe_start 7)) = [(7, ''a'')]
   \<and> lastRan (vars quiet_probe) = Some 7 \<and> (0 :: nat) < 7 \<and> 7 + 1000 \<le> now quiet_probe
   \<and> timers quiet_probe = [] \<and> now quiet_probe \<le> 9000
   \<and> calls (wrapped 1000 ''b'' quiet_probe) = calls quiet_probe
   \<and> timers (wrapped 1000 ''b'' quiet_probe) = [(1, 5000, ''b'')]
   \<and> calls (wrapped_timer 1000 ''b'' quiet_probe) = [(7, ''a''), (5000, ''b'')]
   \<and> lastRan (vars (wrapped_timer 1000 ''b'' quiet_probe)) = Some 5000
   \<and> calls (wrapped_timer 1000 ''b'' (wrapped 1000 ''a'' (probe_start 7))) = [(7, ''a'')]
   \<and> calls (probe_until 1000 9000 (foldl (\<lambda>x b. wrapped 1000 b x) quiet_probe [''b'', ''c'']))
       = [(7, ''a''), (5000, ''c'')]
   \<and> lastRan (vars (probe_until 1000 9000 (foldl (\<lambda>x b. wrapped 1000 b x) quiet_probe [''b'', ''c''])))
       = Some 5000
   \<and> sorted (map fst [(100 :: nat, ''b''), (900, ''c'')])
   \<and> list_all (\<lambda>c. 7 \<le> fst c \<and> fst c < 7 + 1000) [(100 :: nat, ''b''), (900, ''c'')]
   \<and> (7 :: nat) + 1000 \<le> 2000
   \<and> calls (probe_until 1000 2000
              (foldl (\<lambda>x c. call_at 1000 c x) (wrapped 1000 ''a'' (probe_start 7)) [(100, ''b''), (900, ''c'')]))
       = [(7, ''a''), (1007, ''c'')]
   \<and> lastRan (vars (probe_until 1000 2000
              (foldl (\<lambda>x c. call_at 1000 c x) (wrapped 1000 ''a'' (probe_start 7)) [(100, ''b''), (900, ''c'')])))
       = Some 1007
   \<and> calls (probe_until 1000 2000
              (foldl (\<lambda>x c. call_at 1000 c x) (probe_start 7) [(7, ''a''), (100, ''b''), (900, ''c'')]))
       = [(7, ''a''), (1007, ''c'')]"
proof -
  let ?p = "probe_start 7 :: string probe"
  let ?cs = "[(100 :: nat, ''b''), (900, ''c'')]"
  have f: "lastRan (vars ?p) = None" and n: "now ?p = 7" and c0: "calls ?p = []"
    by (simp_all add: probe_start_def fresh_throttle_def)
  have q: "lastRan (vars quiet_probe) = Some 7 \<and> (0 :: nat) < 7 \<and> 7 + 1000 \<le> now quiet_probe
           \<and> timers quiet_probe = [] \<and> now quiet_probe \<le> 9000"
    and qt: "timers quiet_probe = []" "lastFunc (vars quiet_probe) = None" "nextId quiet_probe = 1"
       "now quiet_probe = 5000" "calls quiet_probe = [(7, ''a'')]"
    by (simp_all add: quiet_probe_eq)
  have w: "sorted (map fst ?cs)" "list_all (\<lambda>c. 7 \<le> fst c \<and> fst c < 7 + 1000) ?cs"
     "(7 :: nat) + 1000 \<le> 2000" by simp_all
  let ?s = "wrapped 1000 ''a'' ?p"
  from throttle_contract [of ?p 1000 "''a''" 7 2000 "[]" ?cs 7] f w
  have 1: "calls ?s = [(7, ''a'')]" and tm: "timers ?s = []" and lr: "lastRan (vars ?s) = Some 7"
    and 6: "calls (probe_until 1000 2000 (foldl (\<lambda>x c. call_at 1000 c x) ?p ((7, ''a'') # ?cs)))
             = [(7, ''a''), (1007, ''c'')]"
    by (simp_all add: n c0 probe_start_def)
  from throttle_contract [of quiet_probe 1000 "''b''" 7 9000 "[]" ?cs 7] q
  have 2: "calls (wrapped 1000 ''b'' quiet_probe) = calls quiet_probe"
    and tq: "timers (wrapped 1000 ''b'' quiet_probe) = [(1, 5000, ''b'')]"
    and 3: "calls (wrapped_timer 1000 ''b'' quiet_probe) = [(7, ''a''), (5000, ''b'')]"
      "lastRan (vars (wrapped_timer 1000 ''b'' quiet_probe)) = Some 5000"
    by (simp_all add: qt)
  from throttle_contract [of quiet_probe 1000 "''c''" 7 9000 "[''b'']" ?cs 7] q
  have 4: "calls (probe_until 1000 9000 (foldl (\<lambda>x b. wrapped 1000 b x) quiet_probe [''b'', ''c'']))
             = [(7, ''a''), (5000, ''c'')]"
      "lastRan (vars (probe_until 1000 9000 (foldl (\<lambda>x b. wrapped 1000 b x) quiet_probe [''b'', ''c''])))
             = Some 5000"
    by (simp_all add: qt)
  have ns: "now ?s = 7" by (simp add: wrapped_first f n)
  from throttle_contract [of ?s 1000 "''b''" 7 2000 "[]" ?cs 7] tm lr ns w
  have 5: "calls (probe_until 1000 2000 (foldl (\<lambda>x c. call_at 1000 c x) ?s ?cs))
             = [(7, ''a''), (1007, ''c'')]"
      "lastRan (vars (probe_until 1000 2000 (foldl (\<lambda>x c. call_at 1000 c x) ?s ?cs))) = Some 1007"
    and 7: "calls (wrapped_timer 1000 ''b'' ?s) = [(7, ''a'')]"
    by (simp_all add: 1)
  from f 1 q 2 tq 3 7 4 w 5 6 show ?thesis by simp
qed


end
